theory Spec2Isabelle
  imports Main "HOL-Library.Char_ord" "HOL-Library.List_Lexorder" "HOL-Library.Multiset"
begin

section \<open>Data model of src/strategies.mts\<close>

text \<open>
  A \<open>RegExp\<close> is kept by its \<open>source\<close> and \<open>flags\<close>; no function of strategies.mts looks
  inside one. The two scope symbols are \<open>Symbol.for('origin-and-below')\<close> and
  \<open>Symbol.for('scope-and-below')\<close>.
\<close>

datatype regexp = RegExp (source: string) (flags: string)

datatype scope_symbol = OriginAndBelow | ScopeAndBelow

text \<open>\<open>OutputPaths = Array<string | RegExp>\<close>: one element of such an array.\<close>

datatype matcher = MString string | MRegExp regexp

text \<open>
  \<open>InputPaths = RegExp | string | OutputPaths | typeof OriginAndBelow | typeof ScopeAndBelow\<close>.
  The type \<open>string | Array<string>\<close> of \<open>CachePathOnInstall.paths\<close> is the part of it
  recognised by \<open>isInstallPaths\<close> below.
\<close>

datatype input_paths =
    PRegExp regexp
  | PString string
  | PArray "matcher list"
  | PSymbol scope_symbol

text \<open>
  Modelled from the spec: \<open>FilesSpec\<close> is declared in filesSpecToPaths.mts, which is not
  among the sources; the specification and the README give it the fields \<open>dir\<close>, \<open>glob\<close>
  and \<open>prefix\<close>. No function below reads a field of it.
\<close>

record files_spec =
  dir :: string
  glob :: string
  prefix :: string

text \<open>
  A strategy object as the functions of strategies.mts see it: the discriminant
  \<open>strategy\<close> (any string) and the three properties they test or read, each of which may
  be absent (\<open>None\<close>). This covers every member of \<open>InputCacheStrategy\<close> and also the
  objects that carry \<open>files\<close> and \<open>paths\<close> at once.
\<close>

record entry =
  strategy :: string
  paths :: "input_paths option"
  files :: "files_spec option"
  backup :: "string option"

text \<open>
  What a call can throw: the exception of the glob resolver (with its message), and the
  \<open>TypeError\<close> of converting a symbol to a string.
\<close>

datatype error = ResolverError string | TypeError

section \<open>Type guards\<close>

definition isCacheFileOnInstall :: "entry \<Rightarrow> bool" where
  "isCacheFileOnInstall s \<longleftrightarrow> strategy s = ''cache-on-install'' \<and> files s \<noteq> None"

definition isCachePathOnInstall :: "entry \<Rightarrow> bool" where
  "isCachePathOnInstall s \<longleftrightarrow> strategy s = ''cache-on-install'' \<and> paths s \<noteq> None"

text \<open>
  JavaScript truthiness (\<open>!!v\<close>) of the two properties \<open>isStaticOfflineBackup\<close> tests: an
  absent property and the empty string are falsy; a non-empty string, a \<open>RegExp\<close>, an
  array (also the empty array) and a symbol are truthy.
\<close>

fun truthyPaths :: "input_paths option \<Rightarrow> bool" where
  "truthyPaths None = False"
| "truthyPaths (Some (PString s)) = (s \<noteq> [])"
| "truthyPaths (Some (PRegExp r)) = True"
| "truthyPaths (Some (PArray ms)) = True"
| "truthyPaths (Some (PSymbol y)) = True"

fun truthyString :: "string option \<Rightarrow> bool" where
  "truthyString None = False"
| "truthyString (Some s) = (s \<noteq> [])"

definition isStaticOfflineBackup :: "entry \<Rightarrow> bool" where
  "isStaticOfflineBackup s \<longleftrightarrow>
     strategy s = ''staticOfflineBackup'' \<and> truthyPaths (paths s) \<and> truthyString (backup s)"

definition isRoutableStrategy :: "entry \<Rightarrow> bool" where
  "isRoutableStrategy x \<longleftrightarrow>
     strategy x = ''cacheFirst''
     \<or> strategy x = ''networkFirst''
     \<or> strategy x = ''networkOnly''
     \<or> strategy x = ''staleWhileRevalidate''
     \<or> strategy x = ''staticOfflineBackup''"

section \<open>Plan normalisation\<close>

text \<open>
  \<open>filesSpecToPaths\<close> is imported from filesSpecToPaths.mjs and is not among the sources:
  it is the parameter \<open>resolver\<close>, a function of the files-spec that returns the paths it
  found or throws.

  \<open>convertPreloadFilesToPaths\<close> reads only the \<open>files\<close> property of its argument (typed
  \<open>CacheFileOnInstall\<close>), so the model takes that property. The object it returns is new
  and has exactly the two properties \<open>strategy\<close> and \<open>paths\<close>.
\<close>

definition convertPreloadFilesToPaths ::
  "(files_spec \<Rightarrow> error + string list) \<Rightarrow> files_spec \<Rightarrow> error + entry" where
  "convertPreloadFilesToPaths resolver f =
     (case resolver f of
        Inl e \<Rightarrow> Inl e
      | Inr ps \<Rightarrow>
          Inr \<lparr>strategy = ''cache-on-install'', paths = Some (PArray (map MString ps)),
               files = None, backup = None\<rparr>)"

definition convertPreloadFiles ::
  "(files_spec \<Rightarrow> error + string list) \<Rightarrow> entry \<Rightarrow> error + entry" where
  "convertPreloadFiles resolver s =
     (if isCacheFileOnInstall s
      then (case files s of
              Some f \<Rightarrow> convertPreloadFilesToPaths resolver f
            | None \<Rightarrow> Inr s)
      else Inr s)"

text \<open>
  \<open>Array.prototype.map\<close> with a callback that can throw: the elements are visited from
  the left, and the first exception leaves the call without a result.
\<close>

fun mapThrowing :: "('a \<Rightarrow> error + 'b) \<Rightarrow> 'a list \<Rightarrow> error + 'b list" where
  "mapThrowing f [] = Inr []"
| "mapThrowing f (x # xs) =
     (case f x of
        Inl e \<Rightarrow> Inl e
      | Inr y \<Rightarrow> (case mapThrowing f xs of Inl e \<Rightarrow> Inl e | Inr ys \<Rightarrow> Inr (y # ys)))"

definition convertAllFilesToPaths ::
  "(files_spec \<Rightarrow> error + string list) \<Rightarrow> entry list \<Rightarrow> error + entry list" where
  "convertAllFilesToPaths resolver spec = mapThrowing (convertPreloadFiles resolver) spec"

section \<open>Preload paths\<close>

text \<open>
  An element of the array that \<open>.map(s => s.paths).flat()\<close> builds: \<open>flat()\<close> opens one
  level of arrays and keeps every other value as one element.
\<close>

datatype path_item = IString string | IRegExp regexp | ISymbol scope_symbol

fun itemOfMatcher :: "matcher \<Rightarrow> path_item" where
  "itemOfMatcher (MString s) = IString s"
| "itemOfMatcher (MRegExp r) = IRegExp r"

fun flatPaths :: "input_paths \<Rightarrow> path_item list" where
  "flatPaths (PString s) = [IString s]"
| "flatPaths (PRegExp r) = [IRegExp r]"
| "flatPaths (PArray ms) = map itemOfMatcher ms"
| "flatPaths (PSymbol y) = [ISymbol y]"

text \<open>
  \<open>Array.prototype.sort()\<close> without a comparator orders the elements by their string
  conversions, compared code unit by code unit, and is stable. A string converts to
  itself, a \<open>RegExp\<close> to \<open>/source/flags\<close>, and converting a symbol throws a \<open>TypeError\<close>;
  an array of fewer than two elements is returned without any comparison. So
  \<open>defaultSort\<close> throws exactly when two or more elements are to be sorted and one of
  them is a symbol, and the equation of \<open>toStringItem\<close> for a symbol is never consulted.
  Strings are compared by \<open>List_Lexorder\<close> over \<open>Char_ord\<close>: lexicographically, by
  character code, a proper prefix first.
\<close>

fun isSymbolItem :: "path_item \<Rightarrow> bool" where
  "isSymbolItem (ISymbol y) = True"
| "isSymbolItem (IString s) = False"
| "isSymbolItem (IRegExp r) = False"

fun toStringItem :: "path_item \<Rightarrow> string" where
  "toStringItem (IString s) = s"
| "toStringItem (IRegExp r) = ''/'' @ source r @ ''/'' @ flags r"
| "toStringItem (ISymbol y) = []"

definition defaultSort :: "path_item list \<Rightarrow> error + path_item list" where
  "defaultSort xs =
     (if length xs < 2 then Inr xs
      else if list_ex isSymbolItem xs then Inl TypeError
      else Inr (sort_key toStringItem xs))"

definition cacheOnInstallPaths :: "entry list \<Rightarrow> path_item list" where
  "cacheOnInstallPaths plan =
     concat (map (\<lambda>s. case paths s of Some p \<Rightarrow> flatPaths p | None \<Rightarrow> [])
                 (filter isCachePathOnInstall plan))"

definition backupPaths :: "entry list \<Rightarrow> string list" where
  "backupPaths plan =
     concat (map (\<lambda>s. case backup s of Some b \<Rightarrow> [b] | None \<Rightarrow> [])
                 (filter isStaticOfflineBackup plan))"

definition extractAllPreloadPaths :: "entry list \<Rightarrow> error + path_item list" where
  "extractAllPreloadPaths plan =
     defaultSort (cacheOnInstallPaths plan @ map IString (backupPaths plan))"

section \<open>Routable plan\<close>

definition convertPreloadPathsToCacheFirst :: "entry list \<Rightarrow> entry list" where
  "convertPreloadPathsToCacheFirst spec =
     map (\<lambda>s. if isRoutableStrategy s then s
              else \<lparr>strategy = ''cacheFirst'', paths = paths s, files = None, backup = None\<rparr>)
         spec"

text \<open>
  Modelled from the spec: the Strategy Router and the path matching it uses are not among
  the sources. Section 4.4 of the specification: scan the plan in declaration order,
  skipping the entries that are not routable, and return the first routable entry whose
  paths match the request URL, or nothing. Sections 4.1 and the README's "Paths": a
  string path matches the request URL equal to it and a list matches when one of its
  elements does; how a \<open>RegExp\<close> and a scope symbol match is left to the parameters
  \<open>rx\<close> and \<open>sy\<close>.
\<close>

fun matchesMatcher :: "(regexp \<Rightarrow> string \<Rightarrow> bool) \<Rightarrow> matcher \<Rightarrow> string \<Rightarrow> bool" where
  "matchesMatcher rx (MString s) requestURL = (s = requestURL)"
| "matchesMatcher rx (MRegExp r) requestURL = rx r requestURL"

fun matchesPaths ::
  "(regexp \<Rightarrow> string \<Rightarrow> bool) \<Rightarrow> (scope_symbol \<Rightarrow> string \<Rightarrow> bool) \<Rightarrow>
   input_paths \<Rightarrow> string \<Rightarrow> bool" where
  "matchesPaths rx sy (PString s) requestURL = (s = requestURL)"
| "matchesPaths rx sy (PRegExp r) requestURL = rx r requestURL"
| "matchesPaths rx sy (PArray ms) requestURL = list_ex (\<lambda>m. matchesMatcher rx m requestURL) ms"
| "matchesPaths rx sy (PSymbol y) requestURL = sy y requestURL"

definition entryMatches :: "(input_paths \<Rightarrow> string \<Rightarrow> bool) \<Rightarrow> entry \<Rightarrow> string \<Rightarrow> bool" where
  "entryMatches matches s requestURL =
     (case paths s of Some p \<Rightarrow> matches p requestURL | None \<Rightarrow> False)"

definition route ::
  "(input_paths \<Rightarrow> string \<Rightarrow> bool) \<Rightarrow> entry list \<Rightarrow> string \<Rightarrow> entry option" where
  "route matches plan requestURL =
     find (\<lambda>s. isRoutableStrategy s \<and> entryMatches matches s requestURL) plan"

section \<open>The preload paths in the specification's words\<close>

text \<open>
  The declared type of \<open>CachePathOnInstall.paths\<close> is \<open>string | Array<string>\<close>; a plan is
  \<open>installTyped\<close> when every entry that passes \<open>isCachePathOnInstall\<close> respects it. The
  paths of routable entries are not restricted.
\<close>

fun isMString :: "matcher \<Rightarrow> bool" where
  "isMString (MString s) = True"
| "isMString (MRegExp r) = False"

fun isInstallPaths :: "input_paths \<Rightarrow> bool" where
  "isInstallPaths (PString s) = True"
| "isInstallPaths (PArray ms) = list_all isMString ms"
| "isInstallPaths (PRegExp r) = False"
| "isInstallPaths (PSymbol y) = False"

definition installTyped :: "entry list \<Rightarrow> bool" where
  "installTyped plan =
     list_all (\<lambda>s. isCachePathOnInstall s \<longrightarrow>
                 (case paths s of Some p \<Rightarrow> isInstallPaths p | None \<Rightarrow> True)) plan"

text \<open>
  Section 4.3 of the specification: every path of every cache-on-install entry,
  flattened, followed by the \<open>backup\<close> of every static-offline-backup entry, as strings.
\<close>

fun matcherStrings :: "matcher \<Rightarrow> string list" where
  "matcherStrings (MString s) = [s]"
| "matcherStrings (MRegExp r) = []"

fun pathStrings :: "input_paths \<Rightarrow> string list" where
  "pathStrings (PString s) = [s]"
| "pathStrings (PArray ms) = concat (map matcherStrings ms)"
| "pathStrings (PRegExp r) = []"
| "pathStrings (PSymbol y) = []"

definition installStrings :: "entry \<Rightarrow> string list" where
  "installStrings s = (case paths s of Some p \<Rightarrow> pathStrings p | None \<Rightarrow> [])"

definition preloadStrings :: "entry list \<Rightarrow> string list" where
  "preloadStrings plan =
     concat (map installStrings (filter isCachePathOnInstall plan)) @ backupPaths plan"

section \<open>The same functions on a store of arrays and objects\<close>

text \<open>
  To say what a call leaves untouched, arrays and strategy objects are placed in a store.
  An address is an index into the list of the objects allocated so far, and allocating
  appends to that list. Strings, regular expressions, symbols and files-specs are
  immutable values; a \<open>paths\<close> property holds such a value or the address of an array.
  \<open>filter\<close>, \<open>map\<close> and \<open>flat\<close> allocate the array they return; \<open>push\<close> and \<open>sort\<close> write
  into the array they are called on. The resolver stays a function of the files-spec,
  and the array it returns is allocated when it returns.

  \<open>IllFormed\<close> is not a JavaScript exception: it marks a store that does not hold what
  the declared types promise (a dangling address, an element of the plan that is not a
  strategy object, an array nested in a \<open>paths\<close> array).
\<close>

type_synonym addr = nat

datatype jsval = VString string | VRegExp regexp | VSymbol scope_symbol | VRef addr

datatype hobj =
    HArray "jsval list"
  | HStrategy string "jsval option" "files_spec option" "string option"

type_synonym store = "hobj list"

datatype failure = Thrown error | IllFormed

definition alloc :: "hobj \<Rightarrow> store \<Rightarrow> (failure + addr) \<times> store" where
  "alloc ob h = (Inr (length h), h @ [ob])"

definition arrayAt :: "store \<Rightarrow> addr \<Rightarrow> jsval list option" where
  "arrayAt h a =
     (if a < length h then (case h ! a of HArray xs \<Rightarrow> Some xs | HStrategy st p f b \<Rightarrow> None)
      else None)"

fun strategyAt :: "store \<Rightarrow> jsval \<Rightarrow> hobj option" where
  "strategyAt h (VRef a) =
     (if a < length h
      then (case h ! a of HArray xs \<Rightarrow> None | HStrategy st p f b \<Rightarrow> Some (HStrategy st p f b))
      else None)"
| "strategyAt h (VString s) = None"
| "strategyAt h (VRegExp r) = None"
| "strategyAt h (VSymbol y) = None"

fun isCacheFileOnInstallS :: "hobj \<Rightarrow> bool" where
  "isCacheFileOnInstallS (HStrategy st p f b) \<longleftrightarrow> st = ''cache-on-install'' \<and> f \<noteq> None"
| "isCacheFileOnInstallS (HArray xs) \<longleftrightarrow> False"

fun isCachePathOnInstallS :: "hobj \<Rightarrow> bool" where
  "isCachePathOnInstallS (HStrategy st p f b) \<longleftrightarrow> st = ''cache-on-install'' \<and> p \<noteq> None"
| "isCachePathOnInstallS (HArray xs) \<longleftrightarrow> False"

fun truthyVal :: "jsval option \<Rightarrow> bool" where
  "truthyVal None = False"
| "truthyVal (Some (VString s)) = (s \<noteq> [])"
| "truthyVal (Some (VRegExp r)) = True"
| "truthyVal (Some (VSymbol y)) = True"
| "truthyVal (Some (VRef a)) = True"

fun isStaticOfflineBackupS :: "hobj \<Rightarrow> bool" where
  "isStaticOfflineBackupS (HStrategy st p f b) \<longleftrightarrow>
     st = ''staticOfflineBackup'' \<and> truthyVal p \<and> truthyString b"
| "isStaticOfflineBackupS (HArray xs) \<longleftrightarrow> False"

definition thenS ::
  "(failure + 'a) \<times> store \<Rightarrow> ('a \<Rightarrow> store \<Rightarrow> (failure + 'b) \<times> store) \<Rightarrow> (failure + 'b) \<times> store" where
  "thenS m k = (case m of (Inl e, h) \<Rightarrow> (Inl e, h) | (Inr x, h) \<Rightarrow> k x h)"

definition filterS :: "(hobj \<Rightarrow> bool) \<Rightarrow> addr \<Rightarrow> store \<Rightarrow> (failure + addr) \<times> store" where
  "filterS P a h =
     (case arrayAt h a of
        None \<Rightarrow> (Inl IllFormed, h)
      | Some vs \<Rightarrow>
          if list_all (\<lambda>v. strategyAt h v \<noteq> None) vs
          then alloc (HArray (filter (\<lambda>v. case strategyAt h v of Some ob \<Rightarrow> P ob | None \<Rightarrow> False) vs)) h
          else (Inl IllFormed, h))"

fun pathsOf :: "hobj \<Rightarrow> jsval option" where
  "pathsOf (HStrategy st p f b) = p"
| "pathsOf (HArray xs) = None"

fun backupOf :: "hobj \<Rightarrow> jsval option" where
  "backupOf (HStrategy st p f b) = map_option VString b"
| "backupOf (HArray xs) = None"

definition mapS :: "(hobj \<Rightarrow> jsval option) \<Rightarrow> addr \<Rightarrow> store \<Rightarrow> (failure + addr) \<times> store" where
  "mapS g a h =
     (case arrayAt h a of
        None \<Rightarrow> (Inl IllFormed, h)
      | Some vs \<Rightarrow>
          (case those (map (\<lambda>v. case strategyAt h v of Some ob \<Rightarrow> g ob | None \<Rightarrow> None) vs) of
             None \<Rightarrow> (Inl IllFormed, h)
           | Some ws \<Rightarrow> alloc (HArray ws) h))"

fun flatElem :: "store \<Rightarrow> jsval \<Rightarrow> jsval list" where
  "flatElem h (VRef b) = (case arrayAt h b of Some xs \<Rightarrow> xs | None \<Rightarrow> [VRef b])"
| "flatElem h (VString s) = [VString s]"
| "flatElem h (VRegExp r) = [VRegExp r]"
| "flatElem h (VSymbol y) = [VSymbol y]"

definition flatS :: "addr \<Rightarrow> store \<Rightarrow> (failure + addr) \<times> store" where
  "flatS a h =
     (case arrayAt h a of
        None \<Rightarrow> (Inl IllFormed, h)
      | Some vs \<Rightarrow> alloc (HArray (concat (map (flatElem h) vs))) h)"

definition pushS :: "addr \<Rightarrow> addr \<Rightarrow> store \<Rightarrow> (failure + unit) \<times> store" where
  "pushS a b h =
     (case arrayAt h a of
        None \<Rightarrow> (Inl IllFormed, h)
      | Some xs \<Rightarrow>
          (case arrayAt h b of
             None \<Rightarrow> (Inl IllFormed, h)
           | Some ys \<Rightarrow> (Inr (), h[a := HArray (xs @ ys)])))"

fun itemOfVal :: "jsval \<Rightarrow> path_item option" where
  "itemOfVal (VString s) = Some (IString s)"
| "itemOfVal (VRegExp r) = Some (IRegExp r)"
| "itemOfVal (VSymbol y) = Some (ISymbol y)"
| "itemOfVal (VRef a) = None"

fun valOfItem :: "path_item \<Rightarrow> jsval" where
  "valOfItem (IString s) = VString s"
| "valOfItem (IRegExp r) = VRegExp r"
| "valOfItem (ISymbol y) = VSymbol y"

definition sortS :: "addr \<Rightarrow> store \<Rightarrow> (failure + addr) \<times> store" where
  "sortS a h =
     (case arrayAt h a of
        None \<Rightarrow> (Inl IllFormed, h)
      | Some vs \<Rightarrow>
          (case those (map itemOfVal vs) of
             None \<Rightarrow> (Inl IllFormed, h)
           | Some xs \<Rightarrow>
               (case defaultSort xs of
                  Inl e \<Rightarrow> (Inl (Thrown e), h)
                | Inr ys \<Rightarrow> (Inr a, h[a := HArray (map valOfItem ys)]))))"

definition extractAllPreloadPathsS :: "addr \<Rightarrow> store \<Rightarrow> (failure + addr) \<times> store" where
  "extractAllPreloadPathsS plan h =
     thenS (filterS isCachePathOnInstallS plan h) (\<lambda>a1 h1.
     thenS (mapS pathsOf a1 h1) (\<lambda>a2 h2.
     thenS (flatS a2 h2) (\<lambda>cacheOnInstallPaths h3.
     thenS (filterS isStaticOfflineBackupS plan h3) (\<lambda>b1 h4.
     thenS (mapS backupOf b1 h4) (\<lambda>backupPaths h5.
     thenS (pushS cacheOnInstallPaths backupPaths h5) (\<lambda>u h6.
     sortS cacheOnInstallPaths h6))))))"

definition convertPreloadFilesToPathsS ::
  "(files_spec \<Rightarrow> error + string list) \<Rightarrow> files_spec \<Rightarrow> store \<Rightarrow> (failure + jsval) \<times> store" where
  "convertPreloadFilesToPathsS resolver f h =
     (case resolver f of
        Inl e \<Rightarrow> (Inl (Thrown e), h)
      | Inr ps \<Rightarrow>
          thenS (alloc (HArray (map VString ps)) h) (\<lambda>a h1.
          thenS (alloc (HStrategy ''cache-on-install'' (Some (VRef a)) None None) h1) (\<lambda>ob h2.
          (Inr (VRef ob), h2))))"

definition convertPreloadFilesS ::
  "(files_spec \<Rightarrow> error + string list) \<Rightarrow> jsval \<Rightarrow> store \<Rightarrow> (failure + jsval) \<times> store" where
  "convertPreloadFilesS resolver v h =
     (case strategyAt h v of
        None \<Rightarrow> (Inl IllFormed, h)
      | Some ob \<Rightarrow>
          if isCacheFileOnInstallS ob
          then (case ob of
                  HStrategy st p (Some f) b \<Rightarrow> convertPreloadFilesToPathsS resolver f h
                | _ \<Rightarrow> (Inr v, h))
          else (Inr v, h))"

fun mapThrowingS ::
  "(jsval \<Rightarrow> store \<Rightarrow> (failure + jsval) \<times> store) \<Rightarrow> jsval list \<Rightarrow> store \<Rightarrow>
   (failure + jsval list) \<times> store" where
  "mapThrowingS g [] h = (Inr [], h)"
| "mapThrowingS g (v # vs) h =
     thenS (g v h) (\<lambda>w h1. thenS (mapThrowingS g vs h1) (\<lambda>ws h2. (Inr (w # ws), h2)))"

definition convertAllFilesToPathsS ::
  "(files_spec \<Rightarrow> error + string list) \<Rightarrow> addr \<Rightarrow> store \<Rightarrow> (failure + addr) \<times> store" where
  "convertAllFilesToPathsS resolver spec h =
     (case arrayAt h spec of
        None \<Rightarrow> (Inl IllFormed, h)
      | Some vs \<Rightarrow>
          thenS (mapThrowingS (convertPreloadFilesS resolver) vs h) (\<lambda>ws h1. alloc (HArray ws) h1))"

text \<open>
  Reading a plan back from the store: \<open>planAt h a\<close> is the plan, in the sense of the
  first part of this theory, that the array at address \<open>a\<close> holds in store \<open>h\<close>, with
  every entry and every \<open>paths\<close> array followed to its contents. \<open>extends h h'\<close> says
  that every object of \<open>h\<close> is still in \<open>h'\<close>, at its address and with its contents.
\<close>

fun matcherOfVal :: "jsval \<Rightarrow> matcher option" where
  "matcherOfVal (VString s) = Some (MString s)"
| "matcherOfVal (VRegExp r) = Some (MRegExp r)"
| "matcherOfVal (VSymbol y) = None"
| "matcherOfVal (VRef a) = None"

fun pathsAt :: "store \<Rightarrow> jsval \<Rightarrow> input_paths option" where
  "pathsAt h (VString s) = Some (PString s)"
| "pathsAt h (VRegExp r) = Some (PRegExp r)"
| "pathsAt h (VSymbol y) = Some (PSymbol y)"
| "pathsAt h (VRef a) =
     (case arrayAt h a of
        None \<Rightarrow> None
      | Some vs \<Rightarrow> map_option PArray (those (map matcherOfVal vs)))"

definition entryAt :: "store \<Rightarrow> jsval \<Rightarrow> entry option" where
  "entryAt h v =
     (case strategyAt h v of
        Some (HStrategy st None f b) \<Rightarrow>
          Some \<lparr>strategy = st, paths = None, files = f, backup = b\<rparr>
      | Some (HStrategy st (Some pv) f b) \<Rightarrow>
          map_option (\<lambda>p. \<lparr>strategy = st, paths = Some p, files = f, backup = b\<rparr>) (pathsAt h pv)
      | _ \<Rightarrow> None)"

definition planAt :: "store \<Rightarrow> addr \<Rightarrow> entry list option" where
  "planAt h a = (case arrayAt h a of None \<Rightarrow> None | Some vs \<Rightarrow> those (map (entryAt h) vs))"

definition extends :: "store \<Rightarrow> store \<Rightarrow> bool" where
  "extends h h' \<longleftrightarrow> length h \<le> length h' \<and> take (length h) h' = h"

section \<open>Properties of plan normalisation\<close>

lemma mapThrowing_Inr_iff:
  "mapThrowing f xs = Inr ys \<longleftrightarrow> list_all2 (\<lambda>x y. f x = Inr y) xs ys"
proof (induction xs arbitrary: ys)
  case Nil
  then show ?case by auto
next
  case (Cons x xs)
  show ?case
  proof (cases ys)
    case Nil
    then show ?thesis by (simp split: sum.splits)
  next
    case (Cons y ys')
    then show ?thesis using Cons.IH [of ys'] by (auto split: sum.splits)
  qed
qed

lemma mapThrowing_Inl_iff:
  "(\<exists>e. mapThrowing f xs = Inl e) \<longleftrightarrow> (\<exists>x\<in>set xs. \<exists>e. f x = Inl e)"
  by (induction xs) (auto split: sum.splits)

lemma mapThrowing_total:
  "(\<forall>x\<in>set xs. \<exists>y. f x = Inr y) \<Longrightarrow> \<exists>ys. mapThrowing f xs = Inr ys"
  by (induction xs) (auto split: sum.splits)

lemma mapThrowing_append:
  "mapThrowing f (xs @ ys) =
     (case mapThrowing f xs of
        Inl e \<Rightarrow> Inl e
      | Inr us \<Rightarrow> (case mapThrowing f ys of Inl e \<Rightarrow> Inl e | Inr vs \<Rightarrow> Inr (us @ vs)))"
  by (induction xs) (auto split: sum.splits)

lemma convertPreloadFiles_Inr:
  "convertPreloadFiles resolver s = Inr t \<longleftrightarrow>
     (if isCacheFileOnInstall s
      then \<exists>f ps. files s = Some f \<and> resolver f = Inr ps \<and>
             t = \<lparr>strategy = ''cache-on-install'', paths = Some (PArray (map MString ps)),
                  files = None, backup = None\<rparr>
      else t = s)"
  by (auto simp: convertPreloadFiles_def convertPreloadFilesToPaths_def isCacheFileOnInstall_def
      split: sum.splits option.splits)

lemma convertPreloadFiles_Inl:
  "convertPreloadFiles resolver s = Inl e \<longleftrightarrow>
     isCacheFileOnInstall s \<and> (\<exists>f. files s = Some f \<and> resolver f = Inl e)"
  by (auto simp: convertPreloadFiles_def convertPreloadFilesToPaths_def isCacheFileOnInstall_def
      split: sum.splits option.splits)

lemma convertPreloadFiles_not_file:
  "convertPreloadFiles resolver s = Inr t \<Longrightarrow> \<not> isCacheFileOnInstall t"
  by (auto simp: convertPreloadFiles_Inr isCacheFileOnInstall_def split: if_splits)

text \<open>
  Claim C5. When the glob resolver returns for every files-spec of the plan,
  \<open>convertAllFilesToPaths\<close> returns a plan of the same length in which, position by
  position, an entry given by a files-spec has become the path-based cache-on-install
  entry whose paths are the resolver's output for that files-spec, and every other entry
  is the entry of the input.
\<close>

theorem convertAllFilesToPaths_replaces_files_entries:
  assumes ok: "\<forall>s\<in>set plan. \<forall>f. isCacheFileOnInstall s \<longrightarrow> files s = Some f \<longrightarrow>
                 (\<exists>ps. resolver f = Inr ps)"
  shows "\<exists>out. convertAllFilesToPaths resolver plan = Inr out \<and>
           length out = length plan \<and>
           (\<forall>i<length plan.
              if isCacheFileOnInstall (plan ! i)
              then \<exists>f ps. files (plan ! i) = Some f \<and> resolver f = Inr ps \<and>
                     out ! i = \<lparr>strategy = ''cache-on-install'',
                                paths = Some (PArray (map MString ps)),
                                files = None, backup = None\<rparr>
              else out ! i = plan ! i)"
proof -
  have "\<forall>s\<in>set plan. \<exists>t. convertPreloadFiles resolver s = Inr t"
  proof
    fix s assume "s \<in> set plan"
    show "\<exists>t. convertPreloadFiles resolver s = Inr t"
    proof (cases "convertPreloadFiles resolver s")
      case (Inl e)
      with ok \<open>s \<in> set plan\<close> show ?thesis
        by (auto simp: convertPreloadFiles_Inl)
    next
      case (Inr t)
      then show ?thesis by blast
    qed
  qed
  then obtain out where out: "convertAllFilesToPaths resolver plan = Inr out"
    unfolding convertAllFilesToPaths_def using mapThrowing_total by blast
  then have rel: "list_all2 (\<lambda>s t. convertPreloadFiles resolver s = Inr t) plan out"
    by (simp add: convertAllFilesToPaths_def mapThrowing_Inr_iff)
  then have len: "length out = length plan"
    by (simp add: list_all2_lengthD)
  have "\<forall>i<length plan. convertPreloadFiles resolver (plan ! i) = Inr (out ! i)"
    using rel by (simp add: list_all2_conv_all_nth)
  then show ?thesis
    using out len by (simp add: convertPreloadFiles_Inr)
qed

theorem convertAllFilesToPaths_replaces_files_entries_witness:
  "convertAllFilesToPaths (\<lambda>f. Inr [prefix f @ ''/a.png''])
     [\<lparr>strategy = ''cache-on-install'', paths = None,
       files = Some \<lparr>dir = ''src/images'', glob = ''*.png'', prefix = ''/img''\<rparr>,
       backup = None\<rparr>,
      \<lparr>strategy = ''networkFirst'', paths = Some (PString ''/index.html''),
       files = None, backup = None\<rparr>]
   = Inr [\<lparr>strategy = ''cache-on-install'', paths = Some (PArray [MString ''/img/a.png'']),
           files = None, backup = None\<rparr>,
          \<lparr>strategy = ''networkFirst'', paths = Some (PString ''/index.html''),
           files = None, backup = None\<rparr>]"
proof -
  let ?r = "\<lambda>f. Inr [prefix f @ ''/a.png''] :: error + string list"
  let ?plan = "[\<lparr>strategy = ''cache-on-install'', paths = None,
       files = Some \<lparr>dir = ''src/images'', glob = ''*.png'', prefix = ''/img''\<rparr>,
       backup = None\<rparr>,
      \<lparr>strategy = ''networkFirst'', paths = Some (PString ''/index.html''),
       files = None, backup = None\<rparr>]"
  have h: "\<forall>s\<in>set ?plan. \<forall>f. isCacheFileOnInstall s \<longrightarrow> files s = Some f \<longrightarrow>
             (\<exists>ps. ?r f = Inr ps)"
    by simp
  from convertAllFilesToPaths_replaces_files_entries [OF h]
  obtain out where out: "convertAllFilesToPaths ?r ?plan = Inr out"
    and len: "length out = length ?plan"
    and nth: "\<forall>i<length ?plan.
              if isCacheFileOnInstall (?plan ! i)
              then \<exists>f ps. files (?plan ! i) = Some f \<and> ?r f = Inr ps \<and>
                     out ! i = \<lparr>strategy = ''cache-on-install'',
                                paths = Some (PArray (map MString ps)),
                                files = None, backup = None\<rparr>
              else out ! i = ?plan ! i"
    by blast
  from len obtain a b where ab: "out = [a, b]"
    by (cases out; cases "tl out") auto
  from nth have "a = \<lparr>strategy = ''cache-on-install'',
      paths = Some (PArray [MString ''/img/a.png'']), files = None, backup = None\<rparr>"
    unfolding ab by (auto simp: isCacheFileOnInstall_def dest!: spec [of _ 0])
  moreover from nth have "b = \<lparr>strategy = ''networkFirst'',
      paths = Some (PString ''/index.html''), files = None, backup = None\<rparr>"
    unfolding ab by (auto simp: isCacheFileOnInstall_def dest!: spec [of _ 1])
  ultimately show ?thesis using out ab by simp
qed

text \<open>
  Claim C6. If the glob resolver throws for the files-spec of some entry of the plan
  that is given by a files-spec, \<open>convertAllFilesToPaths\<close> throws: its value is an error
  and no plan, neither whole nor partial.
\<close>

theorem convertAllFilesToPaths_raises_when_resolver_raises:
  assumes "s \<in> set plan" "isCacheFileOnInstall s" "files s = Some f" "resolver f = Inl e"
  shows "\<exists>e'. convertAllFilesToPaths resolver plan = Inl e'"
proof -
  have "convertPreloadFiles resolver s = Inl e"
    using assms by (simp add: convertPreloadFiles_Inl)
  with assms(1) show ?thesis
    unfolding convertAllFilesToPaths_def mapThrowing_Inl_iff by blast
qed

theorem convertAllFilesToPaths_raises_when_resolver_raises_witness:
  "convertAllFilesToPaths (\<lambda>f. if glob f = ''*.png'' then Inl (ResolverError ''ENOENT'') else Inr [])
     [\<lparr>strategy = ''networkOnly'', paths = Some (PString ''/api''), files = None, backup = None\<rparr>,
      \<lparr>strategy = ''cache-on-install'', paths = None,
       files = Some \<lparr>dir = ''src/images'', glob = ''*.png'', prefix = ''/img''\<rparr>,
       backup = None\<rparr>]
   = Inl (ResolverError ''ENOENT'')"
proof -
  let ?r = "\<lambda>f. if glob f = ''*.png'' then Inl (ResolverError ''ENOENT'') else Inr []"
  let ?f = "\<lparr>dir = ''src/images'', glob = ''*.png'', prefix = ''/img''\<rparr>"
  let ?s = "\<lparr>strategy = ''cache-on-install'', paths = None, files = Some ?f, backup = None\<rparr>"
  let ?plan = "[\<lparr>strategy = ''networkOnly'', paths = Some (PString ''/api''), files = None,
                 backup = None\<rparr>, ?s]"
  have "\<exists>e'. convertAllFilesToPaths ?r ?plan = Inl e'"
    by (rule convertAllFilesToPaths_raises_when_resolver_raises
          [of ?s ?plan ?f ?r "ResolverError ''ENOENT''"])
       (simp_all add: isCacheFileOnInstall_def)
  then show ?thesis
    by (simp add: convertAllFilesToPaths_def convertPreloadFiles_def
        convertPreloadFilesToPaths_def isCacheFileOnInstall_def)
qed

text \<open>
  Claim C10. \<open>convertAllFilesToPaths\<close> is idempotent for a fixed resolver: a plan it
  returns contains no entry that passes \<open>isCacheFileOnInstall\<close>, and normalising that plan
  again returns it unchanged.
\<close>

theorem convertAllFilesToPaths_idempotent:
  assumes "convertAllFilesToPaths resolver plan = Inr out"
  shows "convertAllFilesToPaths resolver out = Inr out \<and>
         (\<forall>s\<in>set out. \<not> isCacheFileOnInstall s)"
proof -
  have rel: "list_all2 (\<lambda>s t. convertPreloadFiles resolver s = Inr t) plan out"
    using assms by (simp add: convertAllFilesToPaths_def mapThrowing_Inr_iff)
  have nf: "\<forall>t\<in>set out. \<not> isCacheFileOnInstall t"
  proof
    fix t assume "t \<in> set out"
    then obtain i where "i < length out" "t = out ! i"
      by (auto simp: in_set_conv_nth)
    with rel have "convertPreloadFiles resolver (plan ! i) = Inr t"
      by (simp add: list_all2_conv_all_nth)
    then show "\<not> isCacheFileOnInstall t"
      by (rule convertPreloadFiles_not_file)
  qed
  then have "list_all2 (\<lambda>s t. convertPreloadFiles resolver s = Inr t) out out"
    by (simp add: list_all2_same convertPreloadFiles_Inr)
  with nf show ?thesis
    by (simp add: convertAllFilesToPaths_def mapThrowing_Inr_iff)
qed

theorem convertAllFilesToPaths_idempotent_witness:
  "convertAllFilesToPaths (\<lambda>f. Inr [prefix f @ ''/a.png''])
     [\<lparr>strategy = ''cache-on-install'', paths = None,
       files = Some \<lparr>dir = ''src/images'', glob = ''*.png'', prefix = ''/img''\<rparr>,
       backup = None\<rparr>]
   = Inr [\<lparr>strategy = ''cache-on-install'', paths = Some (PArray [MString ''/img/a.png'']),
           files = None, backup = None\<rparr>]
   \<and> convertAllFilesToPaths (\<lambda>f. Inr [prefix f @ ''/a.png''])
       [\<lparr>strategy = ''cache-on-install'', paths = Some (PArray [MString ''/img/a.png'']),
         files = None, backup = None\<rparr>]
     = Inr [\<lparr>strategy = ''cache-on-install'', paths = Some (PArray [MString ''/img/a.png'']),
            files = None, backup = None\<rparr>]"
proof -
  have h: "convertAllFilesToPaths (\<lambda>f. Inr [prefix f @ ''/a.png''])
     [\<lparr>strategy = ''cache-on-install'', paths = None,
       files = Some \<lparr>dir = ''src/images'', glob = ''*.png'', prefix = ''/img''\<rparr>,
       backup = None\<rparr>]
   = Inr [\<lparr>strategy = ''cache-on-install'', paths = Some (PArray [MString ''/img/a.png'']),
           files = None, backup = None\<rparr>]"
    by (simp add: convertAllFilesToPaths_def convertPreloadFiles_def
        convertPreloadFilesToPaths_def isCacheFileOnInstall_def)
  show ?thesis
    using h convertAllFilesToPaths_idempotent [OF h] by blast
qed

text \<open>
  Claim C4, as the specification states it, fails: a cache-on-install entry that carries
  both \<open>files\<close> and \<open>paths\<close> is normalised without any error. Here the resolver returns
  one path, and the call returns a plan.
\<close>

theorem files_and_paths_both_set_counterexample:
  "convertAllFilesToPaths (\<lambda>f. Inr [''/img/a.png''])
     [\<lparr>strategy = ''cache-on-install'', paths = Some (PString ''/index.html''),
       files = Some \<lparr>dir = ''src/images'', glob = ''*.png'', prefix = ''/img''\<rparr>,
       backup = None\<rparr>]
   = Inr [\<lparr>strategy = ''cache-on-install'', paths = Some (PArray [MString ''/img/a.png'']),
           files = None, backup = None\<rparr>]"
  by (simp add: convertAllFilesToPaths_def convertPreloadFiles_def convertPreloadFilesToPaths_def
      isCacheFileOnInstall_def)

text \<open>
  Claim C4, amended. A cache-on-install entry that carries both \<open>files\<close> and \<open>paths\<close> is
  normalised as the same entry without \<open>paths\<close> is: \<open>convertPreloadFiles\<close> gives what
  \<open>convertPreloadFilesToPaths\<close> gives for its files-spec, so the whole plan normalises to
  the same result with or without the entry's \<open>paths\<close>, and when the resolver returns
  the entry becomes the path-based entry of the resolver's output (its own \<open>paths\<close> are
  dropped). The only error is the resolver's.
\<close>

theorem files_and_paths_both_set_normalised_as_files:
  assumes "strategy s = ''cache-on-install''" "files s = Some f" "paths s = Some p"
  shows "convertPreloadFiles resolver s = convertPreloadFilesToPaths resolver f
       \<and> convertAllFilesToPaths resolver (xs @ s # ys)
         = convertAllFilesToPaths resolver (xs @ s\<lparr>paths := None\<rparr> # ys)
       \<and> (\<forall>ps. resolver f = Inr ps \<longrightarrow>
            convertPreloadFiles resolver s =
              Inr \<lparr>strategy = ''cache-on-install'', paths = Some (PArray (map MString ps)),
                   files = None, backup = None\<rparr>)"
proof -
  have 1: "convertPreloadFiles resolver s = convertPreloadFilesToPaths resolver f"
    using assms by (simp add: convertPreloadFiles_def isCacheFileOnInstall_def)
  have 2: "convertPreloadFiles resolver (s\<lparr>paths := None\<rparr>) = convertPreloadFilesToPaths resolver f"
    using assms by (simp add: convertPreloadFiles_def isCacheFileOnInstall_def)
  have 3: "mapThrowing (convertPreloadFiles resolver) (s # ys)
           = mapThrowing (convertPreloadFiles resolver) (s\<lparr>paths := None\<rparr> # ys)"
    using 1 2 by simp
  have 4: "convertAllFilesToPaths resolver (xs @ s # ys)
         = convertAllFilesToPaths resolver (xs @ s\<lparr>paths := None\<rparr> # ys)"
    unfolding convertAllFilesToPaths_def mapThrowing_append 3 ..
  show ?thesis
    using 1 4 by (simp add: convertPreloadFilesToPaths_def)
qed

theorem files_and_paths_both_set_normalised_as_files_witness:
  "convertPreloadFiles (\<lambda>f. Inr [''/img/a.png''])
     \<lparr>strategy = ''cache-on-install'', paths = Some (PString ''/index.html''),
      files = Some \<lparr>dir = ''src/images'', glob = ''*.png'', prefix = ''/img''\<rparr>,
      backup = None\<rparr>
   = Inr \<lparr>strategy = ''cache-on-install'', paths = Some (PArray [MString ''/img/a.png'']),
          files = None, backup = None\<rparr>"
  using files_and_paths_both_set_normalised_as_files
    [of "\<lparr>strategy = ''cache-on-install'', paths = Some (PString ''/index.html''),
          files = Some \<lparr>dir = ''src/images'', glob = ''*.png'', prefix = ''/img''\<rparr>,
          backup = None\<rparr>"
        "\<lparr>dir = ''src/images'', glob = ''*.png'', prefix = ''/img''\<rparr>"
        "PString ''/index.html''" "\<lambda>f. Inr [''/img/a.png'']" "[]" "[]"]
  by (simp add: convertPreloadFilesToPaths_def)
section \<open>Properties of the preload paths\<close>

lemma matchers_typed:
  "list_all isMString ms \<Longrightarrow>
   map itemOfMatcher ms = map IString (concat (map matcherStrings ms))"
proof (induction ms)
  case Nil
  then show ?case by simp
next
  case (Cons m ms)
  then show ?case by (cases m) simp_all
qed

lemma flatPaths_typed: "isInstallPaths p \<Longrightarrow> flatPaths p = map IString (pathStrings p)"
  by (cases p) (simp_all add: matchers_typed)

lemma cacheOnInstallPaths_typed:
  "installTyped plan \<Longrightarrow>
   cacheOnInstallPaths plan
   = map IString (concat (map installStrings (filter isCachePathOnInstall plan)))"
proof (induction plan)
  case Nil
  then show ?case by (simp add: cacheOnInstallPaths_def)
next
  case (Cons s plan)
  then have IH: "cacheOnInstallPaths plan
      = map IString (concat (map installStrings (filter isCachePathOnInstall plan)))"
    by (simp add: installTyped_def)
  show ?case
  proof (cases "isCachePathOnInstall s")
    case False
    then show ?thesis using IH by (simp add: cacheOnInstallPaths_def)
  next
    case True
    then obtain p where p: "paths s = Some p"
      by (auto simp: isCachePathOnInstall_def)
    with True Cons.prems have "isInstallPaths p"
      by (simp add: installTyped_def)
    then have "flatPaths p = map IString (pathStrings p)"
      by (rule flatPaths_typed)
    moreover have "installStrings s = pathStrings p"
      using p by (simp add: installStrings_def)
    ultimately show ?thesis
      using True p IH by (simp add: cacheOnInstallPaths_def)
  qed
qed

lemma collected_typed:
  "installTyped plan \<Longrightarrow>
   cacheOnInstallPaths plan @ map IString (backupPaths plan) = map IString (preloadStrings plan)"
  by (simp add: cacheOnInstallPaths_typed preloadStrings_def)

lemma insort_key_IString:
  "insort_key toStringItem (IString x) (map IString xs) = map IString (insort x xs)"
  by (induction xs) simp_all

lemma sort_key_IString: "sort_key toStringItem (map IString xs) = map IString (sort xs)"
  by (induction xs) (simp_all add: insort_key_IString)

lemma sort_short: "length xs < 2 \<Longrightarrow> sort xs = (xs :: string list)"
proof (cases xs)
  case Nil
  then show ?thesis by simp
next
  case (Cons x ys)
  assume "length xs < 2"
  with Cons have "ys = []" by simp
  with Cons show ?thesis by simp
qed

lemma no_symbol_IString: "\<not> list_ex isSymbolItem (map IString xs)"
  by (induction xs) simp_all

lemma defaultSort_IString: "defaultSort (map IString xs) = Inr (map IString (sort xs))"
  by (simp add: defaultSort_def no_symbol_IString sort_key_IString sort_short)

lemma defaultSort_mset: "defaultSort xs = Inr out \<Longrightarrow> mset out = mset xs"
  by (auto simp: defaultSort_def split: if_splits)

lemma extract_typed:
  "installTyped plan \<Longrightarrow>
   extractAllPreloadPaths plan = Inr (map IString (sort (preloadStrings plan)))"
  by (simp add: extractAllPreloadPaths_def collected_typed defaultSort_IString)




lemma backupPaths_mem:
  assumes "s \<in> set plan" "isStaticOfflineBackup s"
  shows "\<exists>b. backup s = Some b \<and> b \<in> set (backupPaths plan)"
proof -
  from assms(2) obtain b where b: "backup s = Some b"
    by (cases "backup s") (auto simp: isStaticOfflineBackup_def)
  with assms have "b \<in> set (backupPaths plan)"
    by (force simp: backupPaths_def)
  with b show ?thesis by blast
qed

text \<open>
  Claim C1, as the specification states it, fails: the output is not deduplicated. A plan
  that preloads \<open>/offline.html\<close> and also names it as an offline backup yields the path
  twice.
\<close>

theorem extractAllPreloadPaths_duplicates_counterexample:
  "extractAllPreloadPaths
     [\<lparr>strategy = ''cache-on-install'',
       paths = Some (PArray [MString ''/offline.html'', MString ''/index.html'']),
       files = None, backup = None\<rparr>,
      \<lparr>strategy = ''staticOfflineBackup'',
       paths = Some (PArray [MRegExp (RegExp ''.*[.]html'' [])]),
       files = None, backup = Some ''/offline.html''\<rparr>]
   = Inr [IString ''/index.html'', IString ''/offline.html'', IString ''/offline.html'']
   \<and> \<not> distinct [IString ''/index.html'', IString ''/offline.html'', IString ''/offline.html'']"
  by (simp add: extractAllPreloadPaths_def cacheOnInstallPaths_def backupPaths_def
      defaultSort_def isCachePathOnInstall_def isStaticOfflineBackup_def)

text \<open>
  Claim C1, amended. For every plan whose cache-on-install paths are strings or arrays of
  strings, \<open>extractAllPreloadPaths\<close> returns the concatenation of every path of every
  entry passing \<open>isCachePathOnInstall\<close> (flattened) with the \<open>backup\<close> of every entry
  passing \<open>isStaticOfflineBackup\<close>, sorted lexicographically; the output has the elements
  of that concatenation with their multiplicities, so it is sorted but not deduplicated.
\<close>

theorem extractAllPreloadPaths_sorted_concatenation:
  assumes "installTyped plan"
  shows "\<exists>out. extractAllPreloadPaths plan = Inr (map IString out) \<and>
           out = sort (preloadStrings plan) \<and> sorted out \<and>
           mset out = mset (preloadStrings plan)"
  using assms by (simp add: extract_typed)

theorem extractAllPreloadPaths_sorted_concatenation_witness:
  "installTyped
     [\<lparr>strategy = ''cache-on-install'',
       paths = Some (PArray [MString ''/offline.html'', MString ''/index.html'']),
       files = None, backup = None\<rparr>,
      \<lparr>strategy = ''staticOfflineBackup'',
       paths = Some (PArray [MRegExp (RegExp ''.*[.]html'' [])]),
       files = None, backup = Some ''/offline.html''\<rparr>]
   \<and> extractAllPreloadPaths
     [\<lparr>strategy = ''cache-on-install'',
       paths = Some (PArray [MString ''/offline.html'', MString ''/index.html'']),
       files = None, backup = None\<rparr>,
      \<lparr>strategy = ''staticOfflineBackup'',
       paths = Some (PArray [MRegExp (RegExp ''.*[.]html'' [])]),
       files = None, backup = Some ''/offline.html''\<rparr>]
   = Inr (map IString [''/index.html'', ''/offline.html'', ''/offline.html''])"
proof -
  let ?plan = "[\<lparr>strategy = ''cache-on-install'',
       paths = Some (PArray [MString ''/offline.html'', MString ''/index.html'']),
       files = None, backup = None\<rparr>,
      \<lparr>strategy = ''staticOfflineBackup'',
       paths = Some (PArray [MRegExp (RegExp ''.*[.]html'' [])]),
       files = None, backup = Some ''/offline.html''\<rparr>]"
  have h: "installTyped ?plan"
    by (simp add: installTyped_def isCachePathOnInstall_def)
  have "preloadStrings ?plan = [''/offline.html'', ''/index.html'', ''/offline.html'']"
    by (simp add: preloadStrings_def installStrings_def backupPaths_def
        isCachePathOnInstall_def isStaticOfflineBackup_def)
  with h extractAllPreloadPaths_sorted_concatenation [OF h] show ?thesis
    by simp
qed

text \<open>
  Claim C3, as the specification states it, fails: an entry whose strategy is
  \<open>staticOfflineBackup\<close> and whose \<open>paths\<close> is the empty string does not pass
  \<open>isStaticOfflineBackup\<close>, and its backup is not collected.
\<close>

theorem backup_not_collected_counterexample:
  "extractAllPreloadPaths
     [\<lparr>strategy = ''staticOfflineBackup'', paths = Some (PString []),
       files = None, backup = Some ''/offline.html''\<rparr>]
   = Inr []"
  by (simp add: extractAllPreloadPaths_def cacheOnInstallPaths_def backupPaths_def
      defaultSort_def isCachePathOnInstall_def isStaticOfflineBackup_def)

text \<open>
  Claim C3, amended. For every plan whose cache-on-install paths are strings or arrays of
  strings, the output of \<open>extractAllPreloadPaths\<close> contains the backup path of every entry
  that passes \<open>isStaticOfflineBackup\<close>: strategy \<open>staticOfflineBackup\<close>, truthy \<open>paths\<close>
  and non-empty \<open>backup\<close>.
\<close>

theorem extractAllPreloadPaths_contains_guarded_backups:
  assumes "installTyped plan" "s \<in> set plan" "isStaticOfflineBackup s"
  shows "\<exists>b out. backup s = Some b \<and> extractAllPreloadPaths plan = Inr out \<and>
           IString b \<in> set out"
proof -
  from backupPaths_mem [OF assms(2,3)] obtain b
    where b: "backup s = Some b" "b \<in> set (backupPaths plan)"
    by blast
  then have "b \<in> set (sort (preloadStrings plan))"
    by (simp add: preloadStrings_def)
  then have "IString b \<in> set (map IString (sort (preloadStrings plan)))"
    by (simp del: set_sort)
  with b(1) extract_typed [OF assms(1)] show ?thesis
    by blast
qed

theorem extractAllPreloadPaths_contains_guarded_backups_witness:
  "extractAllPreloadPaths
     [\<lparr>strategy = ''staticOfflineBackup'', paths = Some (PArray [MRegExp (RegExp ''.*[.]html'' [])]),
       files = None, backup = Some ''/offline.html''\<rparr>]
   = Inr [IString ''/offline.html'']"
proof -
  let ?s = "\<lparr>strategy = ''staticOfflineBackup'',
              paths = Some (PArray [MRegExp (RegExp ''.*[.]html'' [])]),
              files = None, backup = Some ''/offline.html''\<rparr>"
  have h1: "installTyped [?s]"
    by (simp add: installTyped_def isCachePathOnInstall_def)
  have h2: "?s \<in> set [?s]" by simp
  have h3: "isStaticOfflineBackup ?s" by (simp add: isStaticOfflineBackup_def)
  from extractAllPreloadPaths_contains_guarded_backups [OF h1 h2 h3]
  obtain out where out: "extractAllPreloadPaths [?s] = Inr out"
    and mem: "IString ''/offline.html'' \<in> set out"
    by auto
  have "extractAllPreloadPaths [?s] = Inr [IString ''/offline.html'']"
    by (simp add: extractAllPreloadPaths_def cacheOnInstallPaths_def backupPaths_def
        defaultSort_def isCachePathOnInstall_def isStaticOfflineBackup_def)
  with out mem show ?thesis by simp
qed






text \<open>
  Claim C9. A cache-on-install entry whose \<open>paths\<close> is a single string contributes
  exactly that string, as one element: in the flattened array it stands, whole, between
  the contributions of the entries before and after it; alone in a plan, it is the
  output; and whenever the plan with the entry and the plan without it both have an
  output, the first output is the second with that one string added.
\<close>

theorem single_string_paths_is_one_element:
  assumes "strategy s = ''cache-on-install''" "paths s = Some (PString p)"
  shows "cacheOnInstallPaths (xs @ s # ys)
         = cacheOnInstallPaths xs @ IString p # cacheOnInstallPaths ys
       \<and> extractAllPreloadPaths [s] = Inr [IString p]
       \<and> (\<forall>out out'. extractAllPreloadPaths (xs @ s # ys) = Inr out \<and>
                     extractAllPreloadPaths (xs @ ys) = Inr out' \<longrightarrow>
                     mset out = add_mset (IString p) (mset out'))
       \<and> (installTyped (xs @ s # ys) \<longrightarrow>
            (\<exists>out. extractAllPreloadPaths (xs @ s # ys) = Inr out \<and> IString p \<in> set out))"
proof -
  have g: "isCachePathOnInstall s" "\<not> isStaticOfflineBackup s"
    using assms by (simp_all add: isCachePathOnInstall_def isStaticOfflineBackup_def)
  have 1: "cacheOnInstallPaths (xs @ s # ys)
           = cacheOnInstallPaths xs @ IString p # cacheOnInstallPaths ys"
    using g(1) assms(2) by (simp add: cacheOnInstallPaths_def)
  have b: "backupPaths (xs @ s # ys) = backupPaths (xs @ ys)"
    using g(2) by (simp add: backupPaths_def)
  have 2: "extractAllPreloadPaths [s] = Inr [IString p]"
    using g assms(2)
    by (simp add: extractAllPreloadPaths_def cacheOnInstallPaths_def backupPaths_def
        defaultSort_def)
  have 3: "mset out = add_mset (IString p) (mset out')"
    if "extractAllPreloadPaths (xs @ s # ys) = Inr out"
      and "extractAllPreloadPaths (xs @ ys) = Inr out'" for out out'
  proof -
    have "mset out = mset (cacheOnInstallPaths (xs @ s # ys)
                           @ map IString (backupPaths (xs @ s # ys)))"
      using that(1) unfolding extractAllPreloadPaths_def by (rule defaultSort_mset)
    moreover have "mset out' = mset (cacheOnInstallPaths (xs @ ys)
                                     @ map IString (backupPaths (xs @ ys)))"
      using that(2) unfolding extractAllPreloadPaths_def by (rule defaultSort_mset)
    moreover have "cacheOnInstallPaths (xs @ ys) = cacheOnInstallPaths xs @ cacheOnInstallPaths ys"
      by (simp add: cacheOnInstallPaths_def)
    ultimately show ?thesis
      using 1 b by simp
  qed
  have 4: "\<exists>out. extractAllPreloadPaths (xs @ s # ys) = Inr out \<and> IString p \<in> set out"
    if t: "installTyped (xs @ s # ys)"
  proof -
    from extract_typed [OF t] obtain out
      where out: "extractAllPreloadPaths (xs @ s # ys) = Inr out"
      by blast
    then have "mset out = mset (cacheOnInstallPaths (xs @ s # ys)
                                @ map IString (backupPaths (xs @ s # ys)))"
      unfolding extractAllPreloadPaths_def by (rule defaultSort_mset)
    then have "IString p \<in># mset out"
      using 1 by simp
    with out show ?thesis by simp
  qed
  from 1 2 3 4 show ?thesis by blast
qed

theorem single_string_paths_is_one_element_witness:
  "extractAllPreloadPaths
     [\<lparr>strategy = ''cache-on-install'', paths = Some (PArray [MString ''/b.css'']),
       files = None, backup = None\<rparr>,
      \<lparr>strategy = ''cache-on-install'', paths = Some (PString ''/a b.png''),
       files = None, backup = None\<rparr>]
   = Inr [IString ''/a b.png'', IString ''/b.css'']
   \<and> extractAllPreloadPaths
     [\<lparr>strategy = ''cache-on-install'', paths = Some (PArray [MString ''/b.css'']),
       files = None, backup = None\<rparr>]
   = Inr [IString ''/b.css'']
   \<and> mset [IString ''/a b.png'', IString ''/b.css'']
     = add_mset (IString ''/a b.png'') (mset [IString ''/b.css''])"
proof -
  let ?x = "\<lparr>strategy = ''cache-on-install'', paths = Some (PArray [MString ''/b.css'']),
              files = None, backup = None\<rparr>"
  let ?s = "\<lparr>strategy = ''cache-on-install'', paths = Some (PString ''/a b.png''),
              files = None, backup = None\<rparr>"
  have e1: "extractAllPreloadPaths ([?x] @ ?s # [])
            = Inr [IString ''/a b.png'', IString ''/b.css'']"
    by (simp add: extractAllPreloadPaths_def cacheOnInstallPaths_def backupPaths_def
        defaultSort_def isCachePathOnInstall_def isStaticOfflineBackup_def)
  have e2: "extractAllPreloadPaths ([?x] @ []) = Inr [IString ''/b.css'']"
    by (simp add: extractAllPreloadPaths_def cacheOnInstallPaths_def backupPaths_def
        defaultSort_def isCachePathOnInstall_def isStaticOfflineBackup_def)
  have "\<forall>out out'. extractAllPreloadPaths ([?x] @ ?s # []) = Inr out \<and>
                     extractAllPreloadPaths ([?x] @ []) = Inr out' \<longrightarrow>
                     mset out = add_mset (IString ''/a b.png'') (mset out')"
    using single_string_paths_is_one_element [of ?s "''/a b.png''" "[?x]" "[]"]
    by simp
  with e1 e2 show ?thesis by simp
qed
section \<open>Properties of the routable plan\<close>

lemma routable_not_install: "isRoutableStrategy t \<Longrightarrow> strategy t \<noteq> ''cache-on-install''"
  by (auto simp: isRoutableStrategy_def)

lemma convertPreloadPathsToCacheFirst_routable:
  "t \<in> set (convertPreloadPathsToCacheFirst plan) \<Longrightarrow> isRoutableStrategy t"
  by (auto simp: convertPreloadPathsToCacheFirst_def isRoutableStrategy_def)

lemma route_Some_routable: "route matches plan requestURL = Some t \<Longrightarrow> isRoutableStrategy t"
  by (auto simp: route_def find_Some_iff)

lemma route_skips:
  "\<forall>t\<in>set xs. \<not> entryMatches matches t requestURL \<Longrightarrow>
   route matches (convertPreloadPathsToCacheFirst (xs @ ys)) requestURL
   = route matches (convertPreloadPathsToCacheFirst ys) requestURL"
proof (induction xs)
  case Nil
  then show ?case by simp
next
  case (Cons x xs)
  then have "\<not> entryMatches matches x requestURL"
    by simp
  then have "\<not> entryMatches matches
      \<lparr>strategy = ''cacheFirst'', paths = paths x, files = None, backup = None\<rparr> requestURL"
    by (simp add: entryMatches_def)
  with Cons show ?case
    by (simp add: route_def convertPreloadPathsToCacheFirst_def)
qed

text \<open>
  Claim C2, as the specification states it, fails on the plan that
  \<open>convertPreloadPathsToCacheFirst\<close> builds for routing: a plan whose only entry is a
  cache-on-install entry for \<open>/img/logo.png\<close>, itself not routable, routes a request for
  that URL to a \<open>cacheFirst\<close> entry instead of returning nothing.
\<close>

theorem cache_on_install_paths_routed_counterexample:
  "\<not> isRoutableStrategy
       \<lparr>strategy = ''cache-on-install'', paths = Some (PArray [MString ''/img/logo.png'']),
        files = None, backup = None\<rparr>
   \<and> route (matchesPaths (\<lambda>r u. False) (\<lambda>y u. False))
       (convertPreloadPathsToCacheFirst
          [\<lparr>strategy = ''cache-on-install'', paths = Some (PArray [MString ''/img/logo.png'']),
            files = None, backup = None\<rparr>])
       ''/img/logo.png''
     = Some \<lparr>strategy = ''cacheFirst'', paths = Some (PArray [MString ''/img/logo.png'']),
             files = None, backup = None\<rparr>"
  by (simp add: route_def convertPreloadPathsToCacheFirst_def isRoutableStrategy_def
      entryMatches_def)

text \<open>
  Claim C2, amended. No entry is ever selected as a cache-on-install entry: every entry
  of the plan that \<open>convertPreloadPathsToCacheFirst\<close> returns is routable, and whatever
  the router selects from it has a strategy other than \<open>cache-on-install\<close>. But a
  path-based cache-on-install entry is replaced there by a \<open>cacheFirst\<close> entry with the
  same paths, so a request whose URL matches the paths of such an entry, and of no entry
  declared before it, is routed to that \<open>cacheFirst\<close> entry; the router does not return
  nothing.
\<close>

theorem cache_on_install_routed_as_cache_first:
  "(\<forall>t\<in>set (convertPreloadPathsToCacheFirst plan). isRoutableStrategy t)
   \<and> (\<forall>t. route matches (convertPreloadPathsToCacheFirst plan) requestURL = Some t \<longrightarrow>
          strategy t \<noteq> ''cache-on-install'')
   \<and> (\<forall>xs s ys p.
         plan = xs @ s # ys \<and> isCachePathOnInstall s \<and> paths s = Some p \<and>
         matches p requestURL \<and> (\<forall>t\<in>set xs. \<not> entryMatches matches t requestURL) \<longrightarrow>
         route matches (convertPreloadPathsToCacheFirst plan) requestURL
         = Some \<lparr>strategy = ''cacheFirst'', paths = Some p, files = None, backup = None\<rparr>)"
proof -
  have 1: "\<forall>t\<in>set (convertPreloadPathsToCacheFirst plan). isRoutableStrategy t"
    by (simp add: convertPreloadPathsToCacheFirst_routable)
  have 2: "strategy t \<noteq> ''cache-on-install''"
    if "route matches (convertPreloadPathsToCacheFirst plan) requestURL = Some t" for t
    using that by (intro routable_not_install route_Some_routable)
  have 3: "route matches (convertPreloadPathsToCacheFirst plan) requestURL
           = Some \<lparr>strategy = ''cacheFirst'', paths = Some p, files = None, backup = None\<rparr>"
    if plan: "plan = xs @ s # ys" and s: "isCachePathOnInstall s" "paths s = Some p"
      and m: "matches p requestURL" and xs: "\<forall>t\<in>set xs. \<not> entryMatches matches t requestURL"
    for xs s ys p
  proof -
    have "\<not> isRoutableStrategy s"
      using s(1) by (auto simp: isCachePathOnInstall_def isRoutableStrategy_def)
    then have "route matches (convertPreloadPathsToCacheFirst (s # ys)) requestURL
               = Some \<lparr>strategy = ''cacheFirst'', paths = Some p, files = None, backup = None\<rparr>"
      using s(2) m
      by (simp add: route_def convertPreloadPathsToCacheFirst_def entryMatches_def
          isRoutableStrategy_def)
    with route_skips [OF xs, of "s # ys"] plan show ?thesis
      by simp
  qed
  from 1 2 3 show ?thesis by blast
qed

theorem cache_on_install_routed_as_cache_first_witness:
  "route (matchesPaths (\<lambda>r u. False) (\<lambda>y u. False))
     (convertPreloadPathsToCacheFirst
        [\<lparr>strategy = ''networkOnly'', paths = Some (PString ''/api''),
          files = None, backup = None\<rparr>,
         \<lparr>strategy = ''cache-on-install'', paths = Some (PString ''/img/logo.png''),
          files = None, backup = None\<rparr>])
     ''/img/logo.png''
   = Some \<lparr>strategy = ''cacheFirst'', paths = Some (PString ''/img/logo.png''),
           files = None, backup = None\<rparr>"
proof -
  let ?m = "matchesPaths (\<lambda>r u. False) (\<lambda>y u. False)"
  let ?x = "\<lparr>strategy = ''networkOnly'', paths = Some (PString ''/api''),
              files = None, backup = None\<rparr>"
  let ?s = "\<lparr>strategy = ''cache-on-install'', paths = Some (PString ''/img/logo.png''),
              files = None, backup = None\<rparr>"
  have h: "[?x, ?s] = [?x] @ ?s # [] \<and> isCachePathOnInstall ?s \<and>
           paths ?s = Some (PString ''/img/logo.png'') \<and>
           ?m (PString ''/img/logo.png'') ''/img/logo.png'' \<and>
           (\<forall>t\<in>set [?x]. \<not> entryMatches ?m t ''/img/logo.png'')"
    by (simp add: isCachePathOnInstall_def entryMatches_def)
  from cache_on_install_routed_as_cache_first [of "[?x, ?s]" ?m "''/img/logo.png''"]
  have "\<forall>xs s ys p.
         [?x, ?s] = xs @ s # ys \<and> isCachePathOnInstall s \<and> paths s = Some p \<and>
         ?m p ''/img/logo.png'' \<and> (\<forall>t\<in>set xs. \<not> entryMatches ?m t ''/img/logo.png'') \<longrightarrow>
         route ?m (convertPreloadPathsToCacheFirst [?x, ?s]) ''/img/logo.png''
         = Some \<lparr>strategy = ''cacheFirst'', paths = Some p, files = None, backup = None\<rparr>"
    by blast
  with h show ?thesis by blast
qed

section \<open>What the calls leave untouched\<close>

lemma extends_refl: "extends h h"
  by (simp add: extends_def)

lemma extends_iff_append: "extends h h' \<longleftrightarrow> (\<exists>zs. h' = h @ zs)"
proof
  assume "extends h h'"
  then have "h' = h @ drop (length h) h'"
    by (metis append_take_drop_id extends_def)
  then show "\<exists>zs. h' = h @ zs" ..
next
  assume "\<exists>zs. h' = h @ zs"
  then show "extends h h'" by (auto simp: extends_def)
qed

lemma extends_trans: "extends h h1 \<Longrightarrow> extends h1 h2 \<Longrightarrow> extends h h2"
  by (auto simp: extends_iff_append)

lemma extends_length: "extends h h' \<Longrightarrow> length h \<le> length h'"
  by (simp add: extends_def)

lemma extends_nth: "extends h h' \<Longrightarrow> a < length h \<Longrightarrow> h' ! a = h ! a"
  by (auto simp: extends_iff_append nth_append)

lemma extends_update: "extends h h' \<Longrightarrow> length h \<le> a \<Longrightarrow> extends h (h'[a := ob])"
  by (auto simp: extends_iff_append list_update_append)

lemma alloc_D:
  "alloc ob h = (r, h') \<Longrightarrow> r = Inr (length h) \<and> h' = h @ [ob]"
  by (auto simp: alloc_def)

lemma filterS_D:
  "filterS P a h = (r, h') \<Longrightarrow>
   (\<exists>e. r = Inl e \<and> h' = h) \<or> (\<exists>ob. r = Inr (length h) \<and> h' = h @ [ob])"
  by (auto simp: filterS_def alloc_def split: option.splits if_splits)

lemma mapS_D:
  "mapS g a h = (r, h') \<Longrightarrow>
   (\<exists>e. r = Inl e \<and> h' = h) \<or> (\<exists>ob. r = Inr (length h) \<and> h' = h @ [ob])"
  by (auto simp: mapS_def alloc_def split: option.splits if_splits)

lemma flatS_D:
  "flatS a h = (r, h') \<Longrightarrow>
   (\<exists>e. r = Inl e \<and> h' = h) \<or> (\<exists>ob. r = Inr (length h) \<and> h' = h @ [ob])"
  by (auto simp: flatS_def alloc_def split: option.splits if_splits)

lemma pushS_D:
  "pushS a b h = (r, h') \<Longrightarrow>
   (\<exists>e. r = Inl e \<and> h' = h) \<or> (\<exists>ob. r = Inr () \<and> h' = h[a := ob])"
  by (auto simp: pushS_def split: option.splits)

lemma sortS_D:
  "sortS a h = (r, h') \<Longrightarrow>
   (\<exists>e. r = Inl e \<and> h' = h) \<or> (\<exists>ob. r = Inr a \<and> a < length h \<and> h' = h[a := ob])"
  by (auto simp: sortS_def arrayAt_def split: option.splits sum.splits if_splits)

lemma thenS_cases:
  assumes "thenS m k = (r, h'')"
  obtains (fail) e where "m = (Inl e, h'')" "r = Inl e"
    | (ok) x h' where "m = (Inr x, h')" "k x h' = (r, h'')"
  using assms by (auto simp: thenS_def split: prod.splits sum.splits)

lemma extractAllPreloadPathsS_frame:
  assumes "extractAllPreloadPathsS plan h = (r, h')"
  shows "extends h h' \<and> (\<forall>a. r = Inr a \<longrightarrow> length h \<le> a \<and> a < length h')"
proof -
  note ext = extends_iff_append
  from assms [unfolded extractAllPreloadPathsS_def] show ?thesis
  proof (cases rule: thenS_cases)
    case (fail e)
    then show ?thesis by (auto dest!: filterS_D simp: extends_refl)
  next
    case (ok a1 h1)
    from ok(1) have h1: "extends h h1" by (auto dest!: filterS_D simp: ext)
    from ok(2) show ?thesis
    proof (cases rule: thenS_cases)
      case (fail e)
      with h1 show ?thesis by (auto dest!: mapS_D)
    next
      case (ok a2 h2)
      from ok(1) have "extends h1 h2" by (auto dest!: mapS_D simp: ext)
      with h1 have h2: "extends h h2" by (rule extends_trans)
      from ok(2) show ?thesis
      proof (cases rule: thenS_cases)
        case (fail e)
        with h2 show ?thesis by (auto dest!: flatS_D)
      next
        case (ok a3 h3)
        from ok(1) have "extends h2 h3" and a3: "a3 = length h2"
          by (auto dest!: flatS_D simp: ext)
        with h2 have h3: "extends h h3" and fresh: "length h \<le> a3"
          by (auto intro: extends_trans dest: extends_length)
        from ok(2) show ?thesis
        proof (cases rule: thenS_cases)
          case (fail e)
          with h3 show ?thesis by (auto dest!: filterS_D)
        next
          case (ok b1 h4)
          from ok(1) have "extends h3 h4" by (auto dest!: filterS_D simp: ext)
          with h3 have h4: "extends h h4" by (rule extends_trans)
          from ok(2) show ?thesis
          proof (cases rule: thenS_cases)
            case (fail e)
            with h4 show ?thesis by (auto dest!: mapS_D)
          next
            case (ok b2 h5)
            from ok(1) have "extends h4 h5" by (auto dest!: mapS_D simp: ext)
            with h4 have h5: "extends h h5" by (rule extends_trans)
            from ok(2) show ?thesis
            proof (cases rule: thenS_cases)
              case (fail e)
              with h5 fresh show ?thesis by (auto dest!: pushS_D intro: extends_update)
            next
              case (ok u h6)
              from ok(1) h5 fresh have h6: "extends h h6"
                by (auto dest!: pushS_D intro: extends_update)
              from ok(2) h6 fresh show ?thesis
                by (auto dest!: sortS_D intro: extends_update)
            qed
          qed
        qed
      qed
    qed
  qed
qed

lemma convertPreloadFilesToPathsS_frame:
  "convertPreloadFilesToPathsS resolver f h = (r, h') \<Longrightarrow> extends h h'"
  by (auto simp: convertPreloadFilesToPathsS_def thenS_def alloc_def extends_iff_append
      split: sum.splits)

lemma convertPreloadFilesS_frame:
  "convertPreloadFilesS resolver v h = (r, h') \<Longrightarrow> extends h h'"
  by (auto simp: convertPreloadFilesS_def extends_refl
      split: option.splits if_splits hobj.splits
      dest: convertPreloadFilesToPathsS_frame)

lemma mapThrowingS_frame:
  assumes g: "\<And>v h r h'. g v h = (r, h') \<Longrightarrow> extends h h'"
  shows "mapThrowingS g vs h = (r, h') \<Longrightarrow> extends h h'"
proof (induction vs arbitrary: h r h')
  case Nil
  then show ?case by (simp add: extends_refl)
next
  case (Cons v vs)
  from Cons.prems [simplified] show ?case
  proof (cases rule: thenS_cases)
    case (fail e)
    then show ?thesis by (auto dest: g)
  next
    case (ok w h1)
    from ok(1) have 1: "extends h h1" by (rule g)
    from ok(2) show ?thesis
    proof (cases rule: thenS_cases)
      case (fail e)
      with 1 Cons.IH show ?thesis by (blast intro: extends_trans)
    next
      case (ok ws h2)
      with 1 Cons.IH show ?thesis by (auto intro: extends_trans)
    qed
  qed
qed

lemma convertEach_frame:
  assumes "mapThrowingS (convertPreloadFilesS resolver) vs h = (r, h')"
  shows "extends h h'"
  using assms by (rule mapThrowingS_frame [rotated]) (rule convertPreloadFilesS_frame)

lemma convertAllFilesToPathsS_frame:
  assumes "convertAllFilesToPathsS resolver spec h = (r, h')"
  shows "extends h h' \<and> (\<forall>a. r = Inr a \<longrightarrow> length h \<le> a \<and> a < length h')"
proof (cases "arrayAt h spec")
  case None
  with assms show ?thesis by (auto simp: convertAllFilesToPathsS_def extends_refl)
next
  case (Some vs)
  with assms have "thenS (mapThrowingS (convertPreloadFilesS resolver) vs h)
                     (\<lambda>ws h1. alloc (HArray ws) h1) = (r, h')"
    by (simp add: convertAllFilesToPathsS_def)
  then show ?thesis
  proof (cases rule: thenS_cases)
    case (fail e)
    then show ?thesis
      by (auto dest: convertEach_frame)
  next
    case (ok ws h1)
    from ok(1) have "extends h h1"
      by (rule convertEach_frame)
    with ok(2) show ?thesis
      by (auto simp: alloc_def extends_iff_append)
  qed
qed

lemma arrayAt_extends: "extends h h' \<Longrightarrow> arrayAt h a = Some xs \<Longrightarrow> arrayAt h' a = Some xs"
  by (auto simp: arrayAt_def extends_iff_append nth_append split: if_splits)

lemma strategyAt_extends: "extends h h' \<Longrightarrow> strategyAt h v = Some ob \<Longrightarrow> strategyAt h' v = Some ob"
  by (cases v) (auto simp: extends_iff_append nth_append split: if_splits)

lemma pathsAt_extends: "extends h h' \<Longrightarrow> pathsAt h v = Some p \<Longrightarrow> pathsAt h' v = Some p"
  by (cases v) (auto split: option.splits dest: arrayAt_extends)

lemma entryAt_extends:
  assumes "extends h h'" "entryAt h v = Some s"
  shows "entryAt h' v = Some s"
proof -
  from assms(2) obtain st p f b where ob: "strategyAt h v = Some (HStrategy st p f b)"
    by (auto simp: entryAt_def split: option.splits hobj.splits)
  then have ob': "strategyAt h' v = Some (HStrategy st p f b)"
    using assms(1) by (simp add: strategyAt_extends)
  show ?thesis
  proof (cases p)
    case None
    with ob ob' assms(2) show ?thesis by (simp add: entryAt_def)
  next
    case (Some pv)
    with ob assms(2) obtain ip where ip: "pathsAt h pv = Some ip"
      by (auto simp: entryAt_def)
    then have "pathsAt h' pv = Some ip"
      using assms(1) by (simp add: pathsAt_extends)
    with ip Some ob ob' assms(2) show ?thesis by (simp add: entryAt_def)
  qed
qed

lemma those_map_extends:
  assumes "\<And>v x. f v = Some x \<Longrightarrow> g v = Some x"
  shows "those (map f vs) = Some xs \<Longrightarrow> those (map g vs) = Some xs"
proof (induction vs arbitrary: xs)
  case Nil
  then show ?case by simp
next
  case (Cons v vs)
  then show ?case by (auto split: option.splits dest: assms)
qed

lemma planAt_extends:
  assumes "extends h h'" "planAt h a = Some es"
  shows "planAt h' a = Some es"
proof -
  from assms(2) obtain vs where vs: "arrayAt h a = Some vs" "those (map (entryAt h) vs) = Some es"
    by (auto simp: planAt_def split: option.splits)
  from vs(1) have "arrayAt h' a = Some vs"
    using assms(1) by (simp add: arrayAt_extends)
  moreover from vs(2) have "those (map (entryAt h') vs) = Some es"
    by (rule those_map_extends [rotated]) (rule entryAt_extends [OF assms(1)])
  ultimately show ?thesis by (simp add: planAt_def)
qed

section \<open>The functions on the store compute the functions on values\<close>

lemma those_map_Some_iff:
  "those (map f vs) = Some xs \<longleftrightarrow> list_all2 (\<lambda>v x. f v = Some x) vs xs"
proof (induction vs arbitrary: xs)
  case Nil
  then show ?case by auto
next
  case (Cons v vs)
  show ?case
  proof (cases xs)
    case Nil
    then show ?thesis by (auto split: option.splits)
  next
    case (Cons y ys)
    then show ?thesis using Cons.IH [of ys] by (auto split: option.splits)
  qed
qed

lemma list_all2_filter:
  assumes "list_all2 R xs ys" "\<And>x y. R x y \<Longrightarrow> P x = Q y"
  shows "list_all2 R (filter P xs) (filter Q ys)"
  using assms(1)
proof (induction rule: list_all2_induct)
  case Nil
  then show ?case by simp
next
  case (Cons x xs y ys)
  then show ?case using assms(2) [of x y] by simp
qed

lemma arrayAt_alloc: "arrayAt (h @ [HArray xs]) (length h) = Some xs"
  by (simp add: arrayAt_def)

lemma extends_append1: "extends h (h @ [ob])"
  by (simp add: extends_iff_append)

lemma entryAt_D:
  "entryAt h v = Some e \<Longrightarrow>
   \<exists>p. strategyAt h v = Some (HStrategy (strategy e) p (files e) (backup e)) \<and>
       (case p of None \<Rightarrow> paths e = None
        | Some pv \<Rightarrow> \<exists>ip. pathsAt h pv = Some ip \<and> paths e = Some ip)"
  by (auto simp: entryAt_def split: option.splits hobj.splits)

lemma truthyVal_pathsAt: "pathsAt h pv = Some ip \<Longrightarrow> truthyVal (Some pv) = truthyPaths (Some ip)"
  by (cases pv) (auto split: option.splits)

lemma guards_agree:
  assumes "entryAt h v = Some e"
  shows "\<exists>ob. strategyAt h v = Some ob
          \<and> isCachePathOnInstallS ob = isCachePathOnInstall e
          \<and> isStaticOfflineBackupS ob = isStaticOfflineBackup e
          \<and> isCacheFileOnInstallS ob = isCacheFileOnInstall e"
proof -
  from entryAt_D [OF assms] obtain p
    where ob: "strategyAt h v = Some (HStrategy (strategy e) p (files e) (backup e))"
      and p: "case p of None \<Rightarrow> paths e = None
              | Some pv \<Rightarrow> \<exists>ip. pathsAt h pv = Some ip \<and> paths e = Some ip"
    by blast
  have "truthyVal p = truthyPaths (paths e) \<and> (p \<noteq> None \<longleftrightarrow> paths e \<noteq> None)"
  proof (cases p)
    case None
    with p show ?thesis by simp
  next
    case (Some pv)
    with p obtain ip where "pathsAt h pv = Some ip" "paths e = Some ip" by auto
    with Some show ?thesis by (simp add: truthyVal_pathsAt)
  qed
  then show ?thesis
    using ob by (simp add: isCachePathOnInstall_def isStaticOfflineBackup_def
        isCacheFileOnInstall_def)
qed

lemma filterS_refines:
  assumes arr: "arrayAt h a = Some vs"
    and rel: "list_all2 (\<lambda>v e. entryAt h v = Some e) vs es"
    and P: "\<And>v e ob. entryAt h v = Some e \<Longrightarrow> strategyAt h v = Some ob \<Longrightarrow> P ob = Q e"
  shows "\<exists>ws. filterS P a h = (Inr (length h), h @ [HArray ws])
          \<and> list_all2 (\<lambda>v e. entryAt h v = Some e) ws (filter Q es)"
proof -
  let ?keep = "\<lambda>v. case strategyAt h v of Some ob \<Rightarrow> P ob | None \<Rightarrow> False"
  have "strategyAt h v \<noteq> None" if "v \<in> set vs" for v
  proof -
    from that rel obtain e where "entryAt h v = Some e"
      by (auto simp: list_all2_conv_all_nth in_set_conv_nth)
    then show ?thesis using guards_agree by fastforce
  qed
  then have all: "list_all (\<lambda>v. strategyAt h v \<noteq> None) vs"
    by (simp add: list_all_iff)
  have "list_all2 (\<lambda>v e. entryAt h v = Some e) (filter ?keep vs) (filter Q es)"
    using rel
  proof (rule list_all2_filter)
    fix v e assume ve: "entryAt h v = Some e"
    then obtain ob where "strategyAt h v = Some ob"
      using guards_agree by blast
    with ve P show "?keep v = Q e" by simp
  qed
  with arr all show ?thesis
    by (simp add: filterS_def alloc_def)
qed

lemma flatElem_refines:
  "pathsAt h pv = Some ip \<Longrightarrow> those (map itemOfVal (flatElem h pv)) = Some (flatPaths ip)"
proof (cases pv)
  case (VRef a)
  assume "pathsAt h pv = Some ip"
  with VRef obtain vs ms where vs: "arrayAt h a = Some vs" "those (map matcherOfVal vs) = Some ms"
    "ip = PArray ms"
    by (auto split: option.splits)
  from vs(2) have "list_all2 (\<lambda>v m. matcherOfVal v = Some m) vs ms"
    by (simp add: those_map_Some_iff)
  then have "list_all2 (\<lambda>v x. itemOfVal v = Some x) vs (map itemOfMatcher ms)"
  proof (induction rule: list_all2_induct)
    case Nil
    then show ?case by simp
  next
    case (Cons v vs m ms)
    then show ?case by (cases v) auto
  qed
  with VRef vs show ?thesis by (simp add: those_map_Some_iff)
qed auto

lemma those_append:
  "those xs = Some us \<Longrightarrow> those ys = Some vs \<Longrightarrow> those (xs @ ys) = Some (us @ vs)"
  by (induction xs arbitrary: us) (auto split: option.splits)

lemma those_valOfItem: "those (map itemOfVal (map valOfItem xs)) = Some xs"
proof (induction xs)
  case Nil
  then show ?case by simp
next
  case (Cons x xs)
  then show ?case by (cases x) simp_all
qed

lemma flat_refines:
  assumes "list_all2 (\<lambda>pv e. \<exists>ip. pathsAt h pv = Some ip \<and> paths e = Some ip) ps es"
  shows "those (map itemOfVal (concat (map (flatElem h) ps)))
         = Some (concat (map (\<lambda>s. case paths s of Some p \<Rightarrow> flatPaths p | None \<Rightarrow> []) es))"
  using assms
proof (induction rule: list_all2_induct)
  case Nil
  then show ?case by simp
next
  case (Cons pv ps e es)
  then obtain ip where ip: "pathsAt h pv = Some ip" "paths e = Some ip" by blast
  from flatElem_refines [OF ip(1)] Cons.IH ip(2) show ?case
    by (simp add: those_append)
qed

lemma mapPaths_refines:
  assumes "list_all2 (\<lambda>v e. entryAt h v = Some e) vs es" "\<forall>e\<in>set es. paths e \<noteq> None"
  shows "\<exists>ps. those (map (\<lambda>v. case strategyAt h v of Some ob \<Rightarrow> pathsOf ob | None \<Rightarrow> None) vs)
               = Some ps
            \<and> list_all2 (\<lambda>pv e. \<exists>ip. pathsAt h pv = Some ip \<and> paths e = Some ip) ps es"
  using assms
proof (induction rule: list_all2_induct)
  case Nil
  then show ?case by simp
next
  case (Cons v vs e es)
  from entryAt_D [OF Cons.hyps(1)] Cons.prems obtain pv ip
    where "strategyAt h v = Some (HStrategy (strategy e) (Some pv) (files e) (backup e))"
      and "pathsAt h pv = Some ip" "paths e = Some ip"
    by (auto split: option.splits)
  moreover from Cons obtain ps
    where "those (map (\<lambda>v. case strategyAt h v of Some ob \<Rightarrow> pathsOf ob | None \<Rightarrow> None) vs)
           = Some ps"
      and "list_all2 (\<lambda>pv e. \<exists>ip. pathsAt h pv = Some ip \<and> paths e = Some ip) ps es"
    by auto
  ultimately show ?case by simp
qed

lemma mapBackup_refines:
  assumes "list_all2 (\<lambda>v e. entryAt h v = Some e) vs es" "\<forall>e\<in>set es. backup e \<noteq> None"
  shows "those (map (\<lambda>v. case strategyAt h v of Some ob \<Rightarrow> backupOf ob | None \<Rightarrow> None) vs)
         = Some (map VString (concat (map (\<lambda>s. case backup s of Some b \<Rightarrow> [b] | None \<Rightarrow> []) es)))"
  using assms
proof (induction rule: list_all2_induct)
  case Nil
  then show ?case by simp
next
  case (Cons v vs e es)
  from entryAt_D [OF Cons.hyps(1)] obtain p
    where "strategyAt h v = Some (HStrategy (strategy e) p (files e) (backup e))"
    by blast
  with Cons show ?case by auto
qed

lemma rel_extends:
  "extends h h' \<Longrightarrow> list_all2 (\<lambda>v e. entryAt h v = Some e) vs es \<Longrightarrow>
   list_all2 (\<lambda>v e. entryAt h' v = Some e) vs es"
  by (erule list_all2_mono) (rule entryAt_extends)

lemma extractAllPreloadPathsS_refines:
  assumes plan: "planAt h plan = Some es"
  shows "\<exists>h'. case extractAllPreloadPaths es of
                 Inl e \<Rightarrow> extractAllPreloadPathsS plan h = (Inl (Thrown e), h')
               | Inr out \<Rightarrow> \<exists>a. extractAllPreloadPathsS plan h = (Inr a, h') \<and>
                                 arrayAt h' a = Some (map valOfItem out)"
proof -
  from plan obtain vs where arr: "arrayAt h plan = Some vs"
    and rel: "list_all2 (\<lambda>v e. entryAt h v = Some e) vs es"
    by (auto simp: planAt_def those_map_Some_iff split: option.splits)
  \<comment> \<open>\<open>plan.filter(isCachePathOnInstall)\<close>\<close>
  from filterS_refines [OF arr rel, of isCachePathOnInstallS isCachePathOnInstall]
  obtain vs1 where s1: "filterS isCachePathOnInstallS plan h = (Inr (length h), h @ [HArray vs1])"
    and rel1: "list_all2 (\<lambda>v e. entryAt h v = Some e) vs1 (filter isCachePathOnInstall es)"
    using guards_agree by fastforce
  define h1 where "h1 = h @ [HArray vs1]"
  have e1: "extends h h1" by (simp add: h1_def extends_append1)
  have a1: "arrayAt h1 (length h) = Some vs1" by (simp add: h1_def arrayAt_alloc)
  \<comment> \<open>\<open>.map(s => s.paths)\<close>\<close>
  have "\<forall>e\<in>set (filter isCachePathOnInstall es). paths e \<noteq> None"
    by (simp add: isCachePathOnInstall_def)
  from mapPaths_refines [OF rel_extends [OF e1 rel1] this]
  obtain ps where ps: "those (map (\<lambda>v. case strategyAt h1 v of Some ob \<Rightarrow> pathsOf ob | None \<Rightarrow> None) vs1)
                       = Some ps"
    and relp: "list_all2 (\<lambda>pv e. \<exists>ip. pathsAt h1 pv = Some ip \<and> paths e = Some ip) ps
                 (filter isCachePathOnInstall es)"
    by blast
  define h2 where "h2 = h1 @ [HArray ps]"
  have s2: "mapS pathsOf (length h) h1 = (Inr (length h1), h2)"
    using a1 ps by (simp add: mapS_def alloc_def h2_def)
  have e2: "extends h1 h2" by (simp add: h2_def extends_append1)
  have a2: "arrayAt h2 (length h1) = Some ps" by (simp add: h2_def arrayAt_alloc)
  \<comment> \<open>\<open>.flat()\<close>\<close>
  define fl where "fl = concat (map (flatElem h2) ps)"
  define h3 where "h3 = h2 @ [HArray fl]"
  have s3: "flatS (length h1) h2 = (Inr (length h2), h3)"
    using a2 by (simp add: flatS_def alloc_def h3_def fl_def)
  have "list_all2 (\<lambda>pv e. \<exists>ip. pathsAt h2 pv = Some ip \<and> paths e = Some ip) ps
          (filter isCachePathOnInstall es)"
    using relp by (rule list_all2_mono) (auto dest: pathsAt_extends [OF e2])
  then have fl: "those (map itemOfVal fl) = Some (cacheOnInstallPaths es)"
    unfolding fl_def cacheOnInstallPaths_def by (rule flat_refines)
  have e3: "extends h h3"
    using e1 e2 by (auto simp: h3_def intro: extends_trans extends_append1)
  \<comment> \<open>\<open>plan.filter(isStaticOfflineBackup)\<close>\<close>
  have arr3: "arrayAt h3 plan = Some vs"
    using e3 arr by (rule arrayAt_extends)
  from filterS_refines [OF arr3 rel_extends [OF e3 rel], of isStaticOfflineBackupS isStaticOfflineBackup]
  obtain vsb where s4: "filterS isStaticOfflineBackupS plan h3 = (Inr (length h3), h3 @ [HArray vsb])"
    and relb: "list_all2 (\<lambda>v e. entryAt h3 v = Some e) vsb (filter isStaticOfflineBackup es)"
    using guards_agree by fastforce
  define h4 where "h4 = h3 @ [HArray vsb]"
  have e4: "extends h3 h4" by (simp add: h4_def extends_append1)
  have a4: "arrayAt h4 (length h3) = Some vsb" by (simp add: h4_def arrayAt_alloc)
  \<comment> \<open>\<open>.map(s => s.backup)\<close>\<close>
  have "backup e \<noteq> None" if "isStaticOfflineBackup e" for e
    using that by (cases "backup e") (simp_all add: isStaticOfflineBackup_def)
  then have "\<forall>e\<in>set (filter isStaticOfflineBackup es). backup e \<noteq> None"
    by simp
  from mapBackup_refines [OF rel_extends [OF e4 relb] this]
  have bs: "those (map (\<lambda>v. case strategyAt h4 v of Some ob \<Rightarrow> backupOf ob | None \<Rightarrow> None) vsb)
            = Some (map VString (backupPaths es))"
    by (simp add: backupPaths_def)
  define h5 where "h5 = h4 @ [HArray (map VString (backupPaths es))]"
  have s5: "mapS backupOf (length h3) h4 = (Inr (length h4), h5)"
    using a4 bs by (simp add: mapS_def alloc_def h5_def)
  \<comment> \<open>\<open>cacheOnInstallPaths.push(...backupPaths)\<close>\<close>
  have len: "length h3 = Suc (length h2)" "length h4 = Suc (length h3)" "length h5 = Suc (length h4)"
    by (simp_all add: h3_def h4_def h5_def)
  have a5: "arrayAt h5 (length h2) = Some fl"
    by (simp add: arrayAt_def h5_def h4_def h3_def nth_append)
  have b5: "arrayAt h5 (length h4) = Some (map VString (backupPaths es))"
    by (simp add: h5_def arrayAt_alloc)
  define h6 where "h6 = h5[length h2 := HArray (fl @ map VString (backupPaths es))]"
  have s6: "pushS (length h2) (length h4) h5 = (Inr (), h6)"
    using a5 b5 by (simp add: pushS_def h6_def)
  \<comment> \<open>\<open>cacheOnInstallPaths.sort()\<close>\<close>
  have a6: "arrayAt h6 (length h2) = Some (fl @ map VString (backupPaths es))"
    using len by (simp add: arrayAt_def h6_def)
  have items: "those (map itemOfVal (fl @ map VString (backupPaths es)))
               = Some (cacheOnInstallPaths es @ map IString (backupPaths es))"
  proof -
    have "those (map itemOfVal (map valOfItem (map IString (backupPaths es))))
          = Some (map IString (backupPaths es))"
      by (rule those_valOfItem)
    then have "those (map itemOfVal (map VString (backupPaths es)))
          = Some (map IString (backupPaths es))"
      by (simp add: comp_def)
    with fl show ?thesis by (simp add: those_append)
  qed
  have run: "extractAllPreloadPathsS plan h = sortS (length h2) h6"
    using s1 s2 s3 s4 s5 s6
    by (simp add: extractAllPreloadPathsS_def thenS_def h1_def [symmetric] h4_def [symmetric])
  show ?thesis
  proof (cases "extractAllPreloadPaths es")
    case (Inl e)
    then have "sortS (length h2) h6 = (Inl (Thrown e), h6)"
      using a6 items by (simp add: sortS_def extractAllPreloadPaths_def)
    with Inl run show ?thesis by auto
  next
    case (Inr out)
    then have "sortS (length h2) h6 = (Inr (length h2), h6[length h2 := HArray (map valOfItem out)])"
      using a6 items by (simp add: sortS_def extractAllPreloadPaths_def)
    moreover have "arrayAt (h6[length h2 := HArray (map valOfItem out)]) (length h2)
                   = Some (map valOfItem out)"
      using len by (simp add: arrayAt_def h6_def)
    ultimately show ?thesis using Inr run by auto
  qed
qed

lemma those_matcher_strings: "those (map matcherOfVal (map VString ps)) = Some (map MString ps)"
  by (induction ps) simp_all

lemma convertPreloadFilesToPathsS_refines:
  "\<exists>h'. extends h h' \<and>
     (case convertPreloadFilesToPaths resolver f of
        Inl er \<Rightarrow> convertPreloadFilesToPathsS resolver f h = (Inl (Thrown er), h')
      | Inr e' \<Rightarrow> \<exists>w. convertPreloadFilesToPathsS resolver f h = (Inr w, h') \<and>
                      entryAt h' w = Some e')"
proof (cases "resolver f")
  case (Inl er)
  then show ?thesis
    by (auto simp: convertPreloadFilesToPaths_def convertPreloadFilesToPathsS_def extends_refl)
next
  case (Inr ps)
  let ?h' = "h @ [HArray (map VString ps),
                   HStrategy ''cache-on-install'' (Some (VRef (length h))) None None]"
  have run: "convertPreloadFilesToPathsS resolver f h = (Inr (VRef (Suc (length h))), ?h')"
    using Inr by (simp add: convertPreloadFilesToPathsS_def thenS_def alloc_def)
  have "arrayAt ?h' (length h) = Some (map VString ps)"
    by (simp add: arrayAt_def nth_append)
  then have "pathsAt ?h' (VRef (length h)) = Some (PArray (map MString ps))"
    using those_matcher_strings [of ps] by (simp del: map_map)
  then have "entryAt ?h' (VRef (Suc (length h)))
        = Some \<lparr>strategy = ''cache-on-install'', paths = Some (PArray (map MString ps)),
                files = None, backup = None\<rparr>"
    by (simp add: entryAt_def nth_append)
  moreover have "extends h ?h'"
    by (simp add: extends_iff_append)
  ultimately show ?thesis
    using Inr run by (auto simp: convertPreloadFilesToPaths_def)
qed

lemma convertPreloadFilesS_refines:
  assumes "entryAt h v = Some e"
  shows "\<exists>h'. extends h h' \<and>
     (case convertPreloadFiles resolver e of
        Inl er \<Rightarrow> convertPreloadFilesS resolver v h = (Inl (Thrown er), h')
      | Inr e' \<Rightarrow> \<exists>w. convertPreloadFilesS resolver v h = (Inr w, h') \<and>
                      entryAt h' w = Some e')"
proof -
  from entryAt_D [OF assms] obtain p
    where ob: "strategyAt h v = Some (HStrategy (strategy e) p (files e) (backup e))"
    by blast
  from guards_agree [OF assms] ob
  have g: "isCacheFileOnInstallS (HStrategy (strategy e) p (files e) (backup e))
           = isCacheFileOnInstall e"
    by simp
  show ?thesis
  proof (cases "isCacheFileOnInstall e")
    case False
    with ob g assms show ?thesis
      by (auto simp: convertPreloadFiles_def convertPreloadFilesS_def extends_refl)
  next
    case True
    then obtain f where f: "files e = Some f"
      by (auto simp: isCacheFileOnInstall_def)
    with True ob g have 1: "convertPreloadFilesS resolver v h = convertPreloadFilesToPathsS resolver f h"
      by (simp add: convertPreloadFilesS_def)
    from True f have 2: "convertPreloadFiles resolver e = convertPreloadFilesToPaths resolver f"
      by (simp add: convertPreloadFiles_def)
    show ?thesis
      unfolding 1 2 by (rule convertPreloadFilesToPathsS_refines)
  qed
qed

lemma convertEach_refines:
  "list_all2 (\<lambda>v e. entryAt h v = Some e) vs es \<Longrightarrow>
   \<exists>h'. extends h h' \<and>
     (case mapThrowing (convertPreloadFiles resolver) es of
        Inl er \<Rightarrow> mapThrowingS (convertPreloadFilesS resolver) vs h = (Inl (Thrown er), h')
      | Inr out \<Rightarrow> \<exists>ws. mapThrowingS (convertPreloadFilesS resolver) vs h = (Inr ws, h') \<and>
                       list_all2 (\<lambda>w e. entryAt h' w = Some e) ws out)"
proof (induction vs arbitrary: es h)
  case Nil
  then show ?case by (auto simp: extends_refl)
next
  case (Cons v vs)
  from Cons.prems obtain e es' where es: "es = e # es'" and ve: "entryAt h v = Some e"
    and rest: "list_all2 (\<lambda>v e. entryAt h v = Some e) vs es'"
    by (auto simp: list_all2_Cons1)
  from convertPreloadFilesS_refines [OF ve, of resolver] obtain h1
    where e1: "extends h h1"
      and step: "case convertPreloadFiles resolver e of
                   Inl er \<Rightarrow> convertPreloadFilesS resolver v h = (Inl (Thrown er), h1)
                 | Inr e' \<Rightarrow> \<exists>w. convertPreloadFilesS resolver v h = (Inr w, h1) \<and>
                                 entryAt h1 w = Some e'"
    by blast
  show ?case
  proof (cases "convertPreloadFiles resolver e")
    case (Inl er)
    with step e1 es show ?thesis by (auto simp: thenS_def)
  next
    case (Inr e')
    with step obtain w where w: "convertPreloadFilesS resolver v h = (Inr w, h1)"
      "entryAt h1 w = Some e'"
      by auto
    from Cons.IH [OF rel_extends [OF e1 rest]] obtain h2
      where e2: "extends h1 h2"
        and tl: "case mapThrowing (convertPreloadFiles resolver) es' of
                   Inl er \<Rightarrow> mapThrowingS (convertPreloadFilesS resolver) vs h1 = (Inl (Thrown er), h2)
                 | Inr out \<Rightarrow> \<exists>ws. mapThrowingS (convertPreloadFilesS resolver) vs h1 = (Inr ws, h2) \<and>
                                  list_all2 (\<lambda>w e. entryAt h2 w = Some e) ws out"
      by blast
    have e12: "extends h h2" using e1 e2 by (rule extends_trans)
    show ?thesis
    proof (cases "mapThrowing (convertPreloadFiles resolver) es'")
      case (Inl er)
      with tl w Inr es e12 show ?thesis by (auto simp: thenS_def)
    next
      case (Inr out)
      with tl obtain ws where ws: "mapThrowingS (convertPreloadFilesS resolver) vs h1 = (Inr ws, h2)"
        "list_all2 (\<lambda>w e. entryAt h2 w = Some e) ws out"
        by auto
      from w(2) have "entryAt h2 w = Some e'"
        using e2 by (simp add: entryAt_extends)
      with ws w \<open>convertPreloadFiles resolver e = Inr e'\<close> Inr es e12 show ?thesis
        by (auto simp: thenS_def)
    qed
  qed
qed

lemma convertAllFilesToPathsS_refines:
  assumes "planAt h spec = Some es"
  shows "\<exists>h'. case convertAllFilesToPaths resolver es of
                 Inl e \<Rightarrow> convertAllFilesToPathsS resolver spec h = (Inl (Thrown e), h')
               | Inr out \<Rightarrow> \<exists>a. convertAllFilesToPathsS resolver spec h = (Inr a, h') \<and>
                                 planAt h' a = Some out"
proof -
  from assms obtain vs where arr: "arrayAt h spec = Some vs"
    and rel: "list_all2 (\<lambda>v e. entryAt h v = Some e) vs es"
    by (auto simp: planAt_def those_map_Some_iff split: option.splits)
  from convertEach_refines [OF rel, of resolver] obtain h1
    where tl: "case mapThrowing (convertPreloadFiles resolver) es of
                 Inl er \<Rightarrow> mapThrowingS (convertPreloadFilesS resolver) vs h = (Inl (Thrown er), h1)
               | Inr out \<Rightarrow> \<exists>ws. mapThrowingS (convertPreloadFilesS resolver) vs h = (Inr ws, h1) \<and>
                                list_all2 (\<lambda>w e. entryAt h1 w = Some e) ws out"
    by blast
  show ?thesis
  proof (cases "mapThrowing (convertPreloadFiles resolver) es")
    case (Inl er)
    with tl arr show ?thesis
      by (auto simp: convertAllFilesToPaths_def convertAllFilesToPathsS_def thenS_def)
  next
    case (Inr out)
    with tl obtain ws where ws: "mapThrowingS (convertPreloadFilesS resolver) vs h = (Inr ws, h1)"
      "list_all2 (\<lambda>w e. entryAt h1 w = Some e) ws out"
      by auto
    let ?h' = "h1 @ [HArray ws]"
    have run: "convertAllFilesToPathsS resolver spec h = (Inr (length h1), ?h')"
      using arr ws(1) by (simp add: convertAllFilesToPathsS_def thenS_def alloc_def)
    have "list_all2 (\<lambda>w e. entryAt ?h' w = Some e) ws out"
      using extends_append1 ws(2) by (rule rel_extends)
    then have "planAt ?h' (length h1) = Some out"
      by (simp add: planAt_def arrayAt_alloc those_map_Some_iff)
    with run Inr show ?thesis
      by (auto simp: convertAllFilesToPaths_def)
  qed
qed

text \<open>
  Claim C8. Neither \<open>convertAllFilesToPaths\<close> nor \<open>extractAllPreloadPaths\<close> mutates its
  input. Whatever a call returns or throws, every object that was in the store before
  the call is in the store after it, at the same address and with the same contents; so
  the plan read from the input array after the call is the plan read from it before
  (same length, same entries in the same order, same \<open>strategy\<close>, \<open>paths\<close>, \<open>files\<close> and
  \<open>backup\<close>), and the array a call returns is a new one, allocated by the call.
\<close>

theorem calls_do_not_mutate_their_input:
  "(\<forall>r h'. convertAllFilesToPathsS resolver plan h = (r, h') \<longrightarrow>
      (\<forall>a<length h. h' ! a = h ! a) \<and>
      (\<forall>es. planAt h plan = Some es \<longrightarrow> planAt h' plan = Some es) \<and>
      (\<forall>a. r = Inr a \<longrightarrow> length h \<le> a \<and> a < length h'))
   \<and> (\<forall>r h'. extractAllPreloadPathsS plan h = (r, h') \<longrightarrow>
      (\<forall>a<length h. h' ! a = h ! a) \<and>
      (\<forall>es. planAt h plan = Some es \<longrightarrow> planAt h' plan = Some es) \<and>
      (\<forall>a. r = Inr a \<longrightarrow> length h \<le> a \<and> a < length h'))"
proof -
  have 1: "(\<forall>a<length h. h' ! a = h ! a) \<and>
           (\<forall>es. planAt h plan = Some es \<longrightarrow> planAt h' plan = Some es) \<and>
           (\<forall>a. r = Inr a \<longrightarrow> length h \<le> a \<and> a < length h')"
    if "convertAllFilesToPathsS resolver plan h = (r, h')" for r h'
    using convertAllFilesToPathsS_frame [OF that]
    by (auto simp: extends_nth planAt_extends)
  have 2: "(\<forall>a<length h. h' ! a = h ! a) \<and>
           (\<forall>es. planAt h plan = Some es \<longrightarrow> planAt h' plan = Some es) \<and>
           (\<forall>a. r = Inr a \<longrightarrow> length h \<le> a \<and> a < length h')"
    if "extractAllPreloadPathsS plan h = (r, h')" for r h'
    using extractAllPreloadPathsS_frame [OF that]
    by (auto simp: extends_nth planAt_extends)
  from 1 2 show ?thesis by blast
qed

theorem calls_do_not_mutate_their_input_witness:
  "extractAllPreloadPathsS 3
     [HArray [VString ''/b.css'', VString ''/a.css''],
      HStrategy ''cache-on-install'' (Some (VRef 0)) None None,
      HStrategy ''staticOfflineBackup'' (Some (VString ''/app'')) None (Some ''/offline.html''),
      HArray [VRef 1, VRef 2]]
   = (Inr 6,
      [HArray [VString ''/b.css'', VString ''/a.css''],
       HStrategy ''cache-on-install'' (Some (VRef 0)) None None,
       HStrategy ''staticOfflineBackup'' (Some (VString ''/app'')) None (Some ''/offline.html''),
       HArray [VRef 1, VRef 2],
       HArray [VRef 1],
       HArray [VRef 0],
       HArray [VString ''/a.css'', VString ''/b.css'', VString ''/offline.html''],
       HArray [VRef 2],
       HArray [VString ''/offline.html'']])
   \<and> planAt
      [HArray [VString ''/b.css'', VString ''/a.css''],
       HStrategy ''cache-on-install'' (Some (VRef 0)) None None,
       HStrategy ''staticOfflineBackup'' (Some (VString ''/app'')) None (Some ''/offline.html''),
       HArray [VRef 1, VRef 2],
       HArray [VRef 1],
       HArray [VRef 0],
       HArray [VString ''/a.css'', VString ''/b.css'', VString ''/offline.html''],
       HArray [VRef 2],
       HArray [VString ''/offline.html'']] 3
     = Some [\<lparr>strategy = ''cache-on-install'',
              paths = Some (PArray [MString ''/b.css'', MString ''/a.css'']),
              files = None, backup = None\<rparr>,
             \<lparr>strategy = ''staticOfflineBackup'', paths = Some (PString ''/app''),
              files = None, backup = Some ''/offline.html''\<rparr>]
   \<and> convertAllFilesToPathsS (\<lambda>f. Inr [prefix f @ ''/a.png'']) 2
      [HStrategy ''cache-on-install'' None
         (Some \<lparr>dir = ''src/images'', glob = ''*.png'', prefix = ''/img''\<rparr>) None,
       HStrategy ''networkFirst'' (Some (VString ''/index.html'')) None None,
       HArray [VRef 0, VRef 1]]
     = (Inr 5,
        [HStrategy ''cache-on-install'' None
           (Some \<lparr>dir = ''src/images'', glob = ''*.png'', prefix = ''/img''\<rparr>) None,
         HStrategy ''networkFirst'' (Some (VString ''/index.html'')) None None,
         HArray [VRef 0, VRef 1],
         HArray [VString ''/img/a.png''],
         HStrategy ''cache-on-install'' (Some (VRef 3)) None None,
         HArray [VRef 4, VRef 1]])
   \<and> planAt
        [HStrategy ''cache-on-install'' None
           (Some \<lparr>dir = ''src/images'', glob = ''*.png'', prefix = ''/img''\<rparr>) None,
         HStrategy ''networkFirst'' (Some (VString ''/index.html'')) None None,
         HArray [VRef 0, VRef 1],
         HArray [VString ''/img/a.png''],
         HStrategy ''cache-on-install'' (Some (VRef 3)) None None,
         HArray [VRef 4, VRef 1]] 2
     = Some [\<lparr>strategy = ''cache-on-install'', paths = None,
              files = Some \<lparr>dir = ''src/images'', glob = ''*.png'', prefix = ''/img''\<rparr>,
              backup = None\<rparr>,
             \<lparr>strategy = ''networkFirst'', paths = Some (PString ''/index.html''),
              files = None, backup = None\<rparr>]"
proof -
  let ?r = "\<lambda>f. Inr [prefix f @ ''/a.png''] :: error + string list"
  let ?g = "[HStrategy ''cache-on-install'' None
         (Some \<lparr>dir = ''src/images'', glob = ''*.png'', prefix = ''/img''\<rparr>) None,
       HStrategy ''networkFirst'' (Some (VString ''/index.html'')) None None,
       HArray [VRef 0, VRef 1]]"
  let ?g' = "[HStrategy ''cache-on-install'' None
           (Some \<lparr>dir = ''src/images'', glob = ''*.png'', prefix = ''/img''\<rparr>) None,
         HStrategy ''networkFirst'' (Some (VString ''/index.html'')) None None,
         HArray [VRef 0, VRef 1],
         HArray [VString ''/img/a.png''],
         HStrategy ''cache-on-install'' (Some (VRef 3)) None None,
         HArray [VRef 4, VRef 1]]"
  have crun: "convertAllFilesToPathsS ?r 2 ?g = (Inr 5, ?g')"
    by (simp add: convertAllFilesToPathsS_def convertPreloadFilesS_def
        convertPreloadFilesToPathsS_def thenS_def alloc_def arrayAt_def)
  have cbefore: "planAt ?g 2
     = Some [\<lparr>strategy = ''cache-on-install'', paths = None,
              files = Some \<lparr>dir = ''src/images'', glob = ''*.png'', prefix = ''/img''\<rparr>,
              backup = None\<rparr>,
             \<lparr>strategy = ''networkFirst'', paths = Some (PString ''/index.html''),
              files = None, backup = None\<rparr>]"
    by (simp add: planAt_def entryAt_def arrayAt_def)
  from calls_do_not_mutate_their_input [of ?r 2 ?g] crun cbefore
  have cafter: "planAt ?g' 2
     = Some [\<lparr>strategy = ''cache-on-install'', paths = None,
              files = Some \<lparr>dir = ''src/images'', glob = ''*.png'', prefix = ''/img''\<rparr>,
              backup = None\<rparr>,
             \<lparr>strategy = ''networkFirst'', paths = Some (PString ''/index.html''),
              files = None, backup = None\<rparr>]"
    by blast
  let ?h = "[HArray [VString ''/b.css'', VString ''/a.css''],
      HStrategy ''cache-on-install'' (Some (VRef 0)) None None,
      HStrategy ''staticOfflineBackup'' (Some (VString ''/app'')) None (Some ''/offline.html''),
      HArray [VRef 1, VRef 2]]"
  let ?h' = "[HArray [VString ''/b.css'', VString ''/a.css''],
       HStrategy ''cache-on-install'' (Some (VRef 0)) None None,
       HStrategy ''staticOfflineBackup'' (Some (VString ''/app'')) None (Some ''/offline.html''),
       HArray [VRef 1, VRef 2],
       HArray [VRef 1],
       HArray [VRef 0],
       HArray [VString ''/a.css'', VString ''/b.css'', VString ''/offline.html''],
       HArray [VRef 2],
       HArray [VString ''/offline.html'']]"
  have run: "extractAllPreloadPathsS 3 ?h = (Inr 6, ?h')"
    by (simp add: extractAllPreloadPathsS_def thenS_def filterS_def mapS_def flatS_def pushS_def
        sortS_def alloc_def arrayAt_def defaultSort_def)
  have before: "planAt ?h 3
     = Some [\<lparr>strategy = ''cache-on-install'',
              paths = Some (PArray [MString ''/b.css'', MString ''/a.css'']),
              files = None, backup = None\<rparr>,
             \<lparr>strategy = ''staticOfflineBackup'', paths = Some (PString ''/app''),
              files = None, backup = Some ''/offline.html''\<rparr>]"
    by (simp add: planAt_def entryAt_def arrayAt_def)
  from calls_do_not_mutate_their_input [of "\<lambda>f. Inr []" 3 ?h] run before
  have "planAt ?h' 3
     = Some [\<lparr>strategy = ''cache-on-install'',
              paths = Some (PArray [MString ''/b.css'', MString ''/a.css'']),
              files = None, backup = None\<rparr>,
             \<lparr>strategy = ''staticOfflineBackup'', paths = Some (PString ''/app''),
              files = None, backup = Some ''/offline.html''\<rparr>]"
    by blast
  with run crun cafter show ?thesis by simp
qed

end
